theory Spec2Isabelle
  imports Main "HOL-Library.Multiset"
begin

section \<open>Data model\<close>

text \<open>
  The comment record of \<^verbatim>\<open>serverTypes\<close>. Only \<^verbatim>\<open>id\<close> and \<^verbatim>\<open>parentId\<close> are read by the
  slice; \<open>body\<close> stands for the remaining pass-through fields. \<^verbatim>\<open>parentId\<close> is
  \<^verbatim>\<open>string | null\<close>.
\<close>

record Comment =
  id' :: string
  parentId :: "string option"
  body :: string

text \<open>
  Objects live in a store. A \<^verbatim>\<open>Node\<close> object holds a reference to its \<^verbatim>\<open>children\<close> array
  (or \<^verbatim>\<open>null\<close>) and its \<^verbatim>\<open>parent\<close> (or \<^verbatim>\<open>null\<close>); arrays are objects of their own, so that
  a shallow copy \<^verbatim>\<open>{ ...node }\<close> shares the array with the original. A reference is the
  index of the object in its arena; allocation appends.

  The type of \<^verbatim>\<open>parent\<close> is \<^verbatim>\<open>Node | null\<close>, but the types are erased at run time and
  \<^verbatim>\<open>commentsTreePreserveOrder\<close> can store there whatever its lookup object returns.
  \<open>OtherObject\<close> stands for any value that is neither \<^verbatim>\<open>null\<close> nor a \<^verbatim>\<open>Node\<close>: a built-in
  function, \<^verbatim>\<open>Object.prototype\<close>, an array, a comment record. Such a value is truthy and
  has no property \<^verbatim>\<open>children\<close> or \<^verbatim>\<open>parent\<close>.
\<close>

datatype ref = NodeRef nat | OtherObject

record Node =
  comment :: "Comment option"
  children :: "nat option"
  parent :: "ref option"
  noRepliesRendered :: nat
  collapsed :: bool

record heap =
  nodes :: "Node list"
  arrays :: "nat list list"

datatype error = TypeError | BadPayload | OutOfFuel

text \<open>
  The values of \<^verbatim>\<open>zIndexTop\<close>, a JavaScript \<^verbatim>\<open>number\<close> (an IEEE 754 double). \<open>Finite z\<close> is
  the double whose value is the integer \<open>z\<close>; it denotes a double only if \<open>z\<close> is
  representable, which every integer of magnitude at most \<open>2 ^ 53\<close> is. Doubles with a
  fractional part are not modelled.
\<close>

datatype number = Finite int | PosInfinity | NegInfinity | NaN

text \<open>
  \<^verbatim>\<open>x + 1\<close> on a representable integer, rounded to nearest, ties to even: exact from
  \<open>- (2 ^ 53)\<close> up to \<open>2 ^ 53 - 1\<close>. Between \<open>2 ^ 53\<close> and \<open>2 ^ 54\<close> the doubles are the even
  integers, \<open>x + 1\<close> lies half-way between two of them and the one with the even
  significand is taken; beyond, \<open>x + 1\<close> rounds back to \<open>x\<close>.
\<close>

definition add_one :: "int \<Rightarrow> int" where
  "add_one z =
     (if - (2 ^ 53) \<le> z \<and> z < 2 ^ 53 then z + 1
      else if \<bar>z\<bar> \<le> 2 ^ 54 then (if even (\<bar>z\<bar> div 2) then z else z + 2)
      else z)"

text \<open>
  \<^verbatim>\<open>v + 1\<close> for the value \<open>v\<close> of a field that may be missing: \<^verbatim>\<open>undefined + 1\<close> is \<^verbatim>\<open>NaN\<close>.
\<close>

definition plus_one :: "number option \<Rightarrow> number" where
  "plus_one v =
     (case v of
        None \<Rightarrow> NaN
      | Some (Finite z) \<Rightarrow> Finite (add_one z)
      | Some PosInfinity \<Rightarrow> PosInfinity
      | Some NegInfinity \<Rightarrow> NegInfinity
      | Some NaN \<Rightarrow> NaN)"

text \<open>
  The per-post entry of \<^verbatim>\<open>CommentsState.items\<close>. An entry built by spreading a missing
  entry lacks its numeric fields; \<open>None\<close> stands for such a missing value, and for
  \<^verbatim>\<open>null\<close> in \<^verbatim>\<open>next\<close>. The time stamps are readings of \<^verbatim>\<open>Date.now()\<close>, which the reducer
  only stores.
\<close>

record Item =
  comments :: nat
  "next" :: "string option"
  zIndexTop :: "number option"
  fetchedAt :: "int option"
  lastFetchedAt :: "int option"

record CommentsState =
  ids :: "string list"
  items :: "string \<rightharpoonup> Item"

definition initialState :: CommentsState where
  "initialState = \<lparr>ids = [], items = Map.empty\<rparr>"

definition defaultCommentZIndex :: number where
  "defaultCommentZIndex = Finite 100000"

definition typeCommentsAdded :: string where
  "typeCommentsAdded = ''comments/commentsAdded''"

definition typeNewCommentAdded :: string where
  "typeNewCommentAdded = ''comments/newCommentAdded''"

definition typeReplyCommentsAdded :: string where
  "typeReplyCommentsAdded = ''comments/replyCommentsAdded''"

definition typeMoreCommentsAdded :: string where
  "typeMoreCommentsAdded = ''comments/moreCommentsAdded''"

definition typeCommentsLoaded :: string where
  "typeCommentsLoaded = ''comments/commentsLoaded''"

text \<open>
  The payload shapes the reducer casts to: a comment list with an optional cursor, an
  already built tree with a cursor, a single comment, or anything else.
\<close>

datatype payload =
    ListPayload string "Comment list" "string option"
  | TreePayload string nat "string option"
  | CommentPayload string Comment
  | OtherPayload

record action =
  type' :: string
  payload :: payload

section \<open>Store primitives\<close>

text \<open>JavaScript truthiness of a \<^verbatim>\<open>string | null\<close>: \<^verbatim>\<open>null\<close> and the empty string are falsy.\<close>

definition truthy :: "string option \<Rightarrow> bool" where
  "truthy s = (case s of None \<Rightarrow> False | Some v \<Rightarrow> v \<noteq> [])"

text \<open>The object literal \<^verbatim>\<open>{ comment: c, children: [], parent: null, noRepliesRendered: 0, collapsed: false }\<close>.\<close>

definition newNode :: "Comment option \<Rightarrow> heap \<Rightarrow> nat \<times> heap" where
  "newNode c h =
     (length (nodes h),
      \<lparr>nodes = nodes h @ [\<lparr>comment = c, children = Some (length (arrays h)), parent = None,
                            noRepliesRendered = 0, collapsed = False\<rparr>],
       arrays = arrays h @ [[]]\<rparr>)"

text \<open>\<^verbatim>\<open>p.children?.push(n)\<close>: nothing happens when \<^verbatim>\<open>p.children\<close> is \<^verbatim>\<open>null\<close>.\<close>

definition push_child :: "nat \<Rightarrow> nat \<Rightarrow> heap \<Rightarrow> heap" where
  "push_child p n h =
     (case children (nodes h ! p) of
        None \<Rightarrow> h
      | Some ar \<Rightarrow> h\<lparr>arrays := (arrays h)[ar := arrays h ! ar @ [n]]\<rparr>)"

text \<open>\<^verbatim>\<open>n.parent = p\<close>.\<close>

definition set_parent :: "nat \<Rightarrow> ref \<Rightarrow> heap \<Rightarrow> heap" where
  "set_parent n p h = h\<lparr>nodes := (nodes h)[n := (nodes h ! n)\<lparr>parent := Some p\<rparr>]\<rparr>"

text \<open>\<^verbatim>\<open>{ ...n }\<close>: a new object with the same field values, the array reference included.\<close>

definition copyNode :: "nat \<Rightarrow> heap \<Rightarrow> nat \<times> heap" where
  "copyNode n h = (length (nodes h), h\<lparr>nodes := nodes h @ [nodes h ! n]\<rparr>)"

text \<open>\<^verbatim>\<open>n.children = xs\<close> for a newly built array \<open>xs\<close>.\<close>

definition set_children :: "nat \<Rightarrow> nat list \<Rightarrow> heap \<Rightarrow> heap" where
  "set_children n xs h =
     \<lparr>nodes = (nodes h)[n := (nodes h ! n)\<lparr>children := Some (length (arrays h))\<rparr>],
      arrays = arrays h @ [xs]\<rparr>"

section \<open>commentsTreePreserveOrder\<close>

text \<open>
  \<^verbatim>\<open>nodeMap\<close> is a plain object used as a dictionary (\<^verbatim>\<open>const nodeMap = {}\<close>), so its keys
  live next to what the object inherits. It is modelled by its own properties and its
  prototype: \<open>proto = None\<close> while the prototype is still \<^verbatim>\<open>Object.prototype\<close>, \<open>Some n\<close> once
  it has been replaced by the node \<open>n\<close>.
\<close>

record NodeMap =
  own :: "string \<rightharpoonup> nat"
  proto :: "nat option"

definition emptyObject :: NodeMap where
  "emptyObject = \<lparr>own = Map.empty, proto = None\<rparr>"

text \<open>
  \<^verbatim>\<open>nodeMap[k] = n\<close> for a node \<open>n\<close>. The key \<^verbatim>\<open>__proto__\<close> is an accessor inherited from
  \<^verbatim>\<open>Object.prototype\<close>, whose setter replaces the prototype of the object and adds no
  property. Every other key becomes an own property: what is inherited under other names
  are writable data properties, which an assignment shadows.
\<close>

definition setProp :: "NodeMap \<Rightarrow> string \<Rightarrow> nat \<Rightarrow> NodeMap" where
  "setProp m k n = (if k = ''__proto__'' then m\<lparr>proto := Some n\<rparr> else m\<lparr>own := (own m)(k \<mapsto> n)\<rparr>)"

text \<open>
  The names of the function-valued properties of \<^verbatim>\<open>Object.prototype\<close> (ECMAScript, with
  annex B), in an environment that has not changed its built-in objects.
\<close>

definition objectPrototypeNames :: "string list" where
  "objectPrototypeNames =
     [''constructor'', ''hasOwnProperty'', ''isPrototypeOf'', ''propertyIsEnumerable'',
      ''toLocaleString'', ''toString'', ''valueOf'', ''__defineGetter__'', ''__defineSetter__'',
      ''__lookupGetter__'', ''__lookupSetter__'']"

text \<open>
  What the second loop can tell about a value it reads from \<^verbatim>\<open>nodeMap\<close>: it is falsy
  (\<^verbatim>\<open>undefined\<close>, \<^verbatim>\<open>null\<close>, \<^verbatim>\<open>0\<close>, \<^verbatim>\<open>false\<close>), or a node, or another truthy value.
\<close>

datatype looked = Falsy | FoundNode nat | FoundOther

text \<open>
  \<^verbatim>\<open>nodeMap[k]\<close>. The getter of \<^verbatim>\<open>__proto__\<close> returns the prototype of the object. An own
  property wins; otherwise the prototype chain is searched: first the node that replaced
  the prototype, if any, with its five fields, then \<^verbatim>\<open>Object.prototype\<close>.
\<close>

definition getProp :: "heap \<Rightarrow> NodeMap \<Rightarrow> string \<Rightarrow> looked" where
  "getProp h m k =
     (if k = ''__proto__'' then (case proto m of None \<Rightarrow> FoundOther | Some p \<Rightarrow> FoundNode p)
      else
        (case own m k of
           Some n \<Rightarrow> FoundNode n
         | None \<Rightarrow>
             (case proto m of
                None \<Rightarrow> if k \<in> set objectPrototypeNames then FoundOther else Falsy
              | Some p \<Rightarrow>
                  if k = ''comment'' then
                    (case comment (nodes h ! p) of None \<Rightarrow> Falsy | Some _ \<Rightarrow> FoundOther)
                  else if k = ''children'' then
                    (case children (nodes h ! p) of None \<Rightarrow> Falsy | Some _ \<Rightarrow> FoundOther)
                  else if k = ''parent'' then
                    (case parent (nodes h ! p) of
                       None \<Rightarrow> Falsy
                     | Some (NodeRef x) \<Rightarrow> FoundNode x
                     | Some OtherObject \<Rightarrow> FoundOther)
                  else if k = ''noRepliesRendered'' then
                    (if noRepliesRendered (nodes h ! p) = 0 then Falsy else FoundOther)
                  else if k = ''collapsed'' then
                    (if collapsed (nodes h ! p) then FoundOther else Falsy)
                  else if k \<in> set objectPrototypeNames then FoundOther
                  else Falsy)))"

text \<open>First loop: one node per comment, in the order received, entered into \<^verbatim>\<open>nodeMap\<close>.\<close>

fun createNodes :: "Comment list \<Rightarrow> NodeMap \<Rightarrow> heap \<Rightarrow> NodeMap \<times> heap" where
  "createNodes [] nodeMap h = (nodeMap, h)"
| "createNodes (c # cs) nodeMap h =
     (case newNode (Some c) h of (n, h') \<Rightarrow> createNodes cs (setProp nodeMap (id' c) n) h')"

text \<open>
  Body of the second loop. \<^verbatim>\<open>node.parent = ...\<close> throws when \<^verbatim>\<open>nodeMap[c.id]\<close> is
  \<^verbatim>\<open>undefined\<close>; after the first loop it is always a node (lemma \<open>attachAll_returns\<close>), so
  the branch for a value that is not a node is never taken. A truthy \<^verbatim>\<open>parentNode\<close> that is
  not a node becomes the parent and, having no \<^verbatim>\<open>children\<close>, receives nothing.
\<close>

definition attach :: "nat \<Rightarrow> NodeMap \<Rightarrow> Comment \<Rightarrow> heap \<Rightarrow> error + heap" where
  "attach rootNode nodeMap c h =
     (case getProp h nodeMap (id' c) of
        FoundNode node \<Rightarrow>
          if truthy (parentId c) then
            (case getProp h nodeMap (the (parentId c)) of
               FoundNode parentNode \<Rightarrow>
                 Inr (push_child parentNode node (set_parent node (NodeRef parentNode) h))
             | FoundOther \<Rightarrow> Inr (set_parent node OtherObject h)
             | Falsy \<Rightarrow> Inr (set_parent node (NodeRef rootNode) (push_child rootNode node h)))
          else Inr (set_parent node (NodeRef rootNode) (push_child rootNode node h))
      | _ \<Rightarrow> Inl TypeError)"

fun attachAll :: "nat \<Rightarrow> NodeMap \<Rightarrow> Comment list \<Rightarrow> heap \<Rightarrow> error + heap" where
  "attachAll rootNode nodeMap [] h = Inr h"
| "attachAll rootNode nodeMap (c # cs) h =
     (case attach rootNode nodeMap c h of
        Inl e \<Rightarrow> Inl e
      | Inr h' \<Rightarrow> attachAll rootNode nodeMap cs h')"

definition commentsTreePreserveOrder :: "Comment list \<Rightarrow> heap \<Rightarrow> error + nat \<times> heap" where
  "commentsTreePreserveOrder cs h =
     (case newNode None h of
        (rootNode, h0) \<Rightarrow>
          (case createNodes cs emptyObject h0 of
             (nodeMap, h1) \<Rightarrow>
               (case attachAll rootNode nodeMap cs h1 of
                  Inl e \<Rightarrow> Inl e
                | Inr h2 \<Rightarrow> Inr (rootNode, h2))))"

section \<open>The tree module\<close>

text \<open>
  Modelled from the spec: \<^verbatim>\<open>searchTree\<close> of \<^verbatim>\<open>commentsTree.ts\<close>, which is not part of the
  sources at hand. Section 4.3: a depth-first traversal returning the first node whose
  \<^verbatim>\<open>comment.id\<close> equals the target, or nothing; the root never matches, its comment being
  absent. The first argument bounds the depth of the descent; running out of it is
  \<open>Inl OutOfFuel\<close>.
\<close>

fun searchTree :: "nat \<Rightarrow> heap \<Rightarrow> nat \<Rightarrow> string \<Rightarrow> error + nat option"
  and searchList :: "nat \<Rightarrow> heap \<Rightarrow> nat list \<Rightarrow> string \<Rightarrow> error + nat option" where
  "searchTree 0 h n i = Inl OutOfFuel"
| "searchTree (Suc k) h n i =
     (if (case comment (nodes h ! n) of None \<Rightarrow> False | Some c \<Rightarrow> id' c = i) then Inr (Some n)
      else (case children (nodes h ! n) of
              None \<Rightarrow> Inr None
            | Some ar \<Rightarrow> searchList k h (arrays h ! ar) i))"
| "searchList k h [] i = Inr None"
| "searchList k h (x # xs) i =
     (case searchTree k h x i of
        Inl e \<Rightarrow> Inl e
      | Inr (Some n) \<Rightarrow> Inr (Some n)
      | Inr None \<Rightarrow> searchList k h xs i)"

text \<open>
  Appending a node as the last child of \<open>p\<close> and setting the back-reference; a parent
  without a children array gets one.
\<close>

definition append_child :: "nat \<Rightarrow> nat \<Rightarrow> heap \<Rightarrow> heap" where
  "append_child p n h =
     (case children (nodes h ! p) of
        None \<Rightarrow> set_parent n (NodeRef p) (set_children p [n] h)
      | Some ar \<Rightarrow> set_parent n (NodeRef p) (push_child p n h))"

text \<open>
  Modelled from the spec: \<^verbatim>\<open>addComment\<close> of \<^verbatim>\<open>commentsTree.ts\<close>, which is not part of the
  sources at hand. Section 4.4: if \<^verbatim>\<open>comment.parentId\<close> is present and a node with that id
  exists anywhere in the tree, the new node is appended as the last child of that node;
  otherwise it is appended as the last child of the root. The inserted node is returned;
  the tree is changed in place (section 6).
\<close>

definition addComment :: "nat \<Rightarrow> nat \<Rightarrow> Comment \<Rightarrow> heap \<Rightarrow> error + nat \<times> heap" where
  "addComment k root c h =
     (case (if truthy (parentId c) then searchTree k h root (the (parentId c)) else Inr None) of
        Inl e \<Rightarrow> Inl e
      | Inr found \<Rightarrow>
          (case newNode (Some c) h of
             (node, h1) \<Rightarrow>
               Inr (node, append_child (case found of None \<Rightarrow> root | Some p \<Rightarrow> p) node h1)))"

text \<open>
  Modelled from the spec: \<^verbatim>\<open>commentsTree\<close> of \<^verbatim>\<open>commentsTree.ts\<close>, which is not part of the
  sources at hand. Section 4.1: pass 1 allocates one node per record into a lookup map
  keyed by id; pass 2 walks the input again and, if \<^verbatim>\<open>parentId\<close> is present and found in
  the lookup map (or, when merging, anywhere in the existing tree), attaches the node as
  the last child of that parent, otherwise as the last child of the root. Without an
  existing root a fresh one is created. The lookup map is the map of the spec, from ids
  to nodes and nothing else.
\<close>

fun allocateNodes :: "Comment list \<Rightarrow> (string \<rightharpoonup> nat) \<Rightarrow> heap \<Rightarrow> (string \<rightharpoonup> nat) \<times> heap" where
  "allocateNodes [] nodeMap h = (nodeMap, h)"
| "allocateNodes (c # cs) nodeMap h =
     (case newNode (Some c) h of (n, h') \<Rightarrow> allocateNodes cs (nodeMap(id' c \<mapsto> n)) h')"

definition merge_attach ::
  "nat \<Rightarrow> bool \<Rightarrow> nat \<Rightarrow> (string \<rightharpoonup> nat) \<Rightarrow> Comment \<Rightarrow> heap \<Rightarrow> error + heap" where
  "merge_attach k merging root nodeMap c h =
     (case nodeMap (id' c) of
        None \<Rightarrow> Inl TypeError
      | Some node \<Rightarrow>
          if truthy (parentId c) then
            (case nodeMap (the (parentId c)) of
               Some p \<Rightarrow> Inr (append_child p node h)
             | None \<Rightarrow>
                 if merging then
                   (case searchTree k h root (the (parentId c)) of
                      Inl e \<Rightarrow> Inl e
                    | Inr (Some p) \<Rightarrow> Inr (append_child p node h)
                    | Inr None \<Rightarrow> Inr (append_child root node h))
                 else Inr (append_child root node h))
          else Inr (append_child root node h))"

fun merge_attachAll ::
  "nat \<Rightarrow> bool \<Rightarrow> nat \<Rightarrow> (string \<rightharpoonup> nat) \<Rightarrow> Comment list \<Rightarrow> heap \<Rightarrow> error + heap" where
  "merge_attachAll k merging root nodeMap [] h = Inr h"
| "merge_attachAll k merging root nodeMap (c # cs) h =
     (case merge_attach k merging root nodeMap c h of
        Inl e \<Rightarrow> Inl e
      | Inr h' \<Rightarrow> merge_attachAll k merging root nodeMap cs h')"

definition commentsTree :: "nat \<Rightarrow> Comment list \<Rightarrow> nat option \<Rightarrow> heap \<Rightarrow> error + nat \<times> heap" where
  "commentsTree k cs existing h =
     (case (case existing of None \<Rightarrow> newNode None h | Some r \<Rightarrow> (r, h)) of
        (root, h0) \<Rightarrow>
          (case allocateNodes cs Map.empty h0 of
             (nodeMap, h1) \<Rightarrow>
               (case merge_attachAll k (existing \<noteq> None) root nodeMap cs h1 of
                  Inl e \<Rightarrow> Inl e
                | Inr h2 \<Rightarrow> Inr (root, h2))))"

section \<open>The reducer\<close>

text \<open>
  The loop \<^verbatim>\<open>while (rootNode.parent!.parent) rootNode = rootNode.parent!\<close>. Reading
  \<^verbatim>\<open>.parent\<close> of \<^verbatim>\<open>null\<close> throws, reading it of a value that is not a node gives
  \<^verbatim>\<open>undefined\<close>, which ends the loop; the first argument bounds the number of iterations.
\<close>

fun ascend :: "nat \<Rightarrow> heap \<Rightarrow> nat \<Rightarrow> error + nat" where
  "ascend 0 h n = Inl OutOfFuel"
| "ascend (Suc k) h n =
     (case parent (nodes h ! n) of
        None \<Rightarrow> Inl TypeError
      | Some OtherObject \<Rightarrow> Inr n
      | Some (NodeRef p) \<Rightarrow>
          (case parent (nodes h ! p) of
             None \<Rightarrow> Inr n
           | Some _ \<Rightarrow> ascend k h p))"

text \<open>
  The test \<^verbatim>\<open>node.parent!.parent !== null\<close> for a parent \<open>r\<close> that is not \<^verbatim>\<open>null\<close>:
  \<^verbatim>\<open>undefined\<close>, read from a value that is not a node, is not \<^verbatim>\<open>null\<close>.
\<close>

definition parentNotNull :: "heap \<Rightarrow> ref \<Rightarrow> bool" where
  "parentNotNull h r = (case r of NodeRef p \<Rightarrow> parent (nodes h ! p) \<noteq> None | OtherObject \<Rightarrow> True)"

text \<open>
  The loop building \<^verbatim>\<open>newChildren\<close>: every child whose comment id equals that of
  \<^verbatim>\<open>rootNode\<close> is replaced by a fresh copy \<^verbatim>\<open>{ ...rootNode }\<close>. Reading \<^verbatim>\<open>.id\<close> of a
  \<^verbatim>\<open>null\<close> comment throws.
\<close>

fun replaceChildren :: "nat \<Rightarrow> nat list \<Rightarrow> nat list \<Rightarrow> heap \<Rightarrow> error + nat list \<times> heap" where
  "replaceChildren rootNode [] newChildren h = Inr (newChildren, h)"
| "replaceChildren rootNode (x # xs) newChildren h =
     (case comment (nodes h ! x) of
        None \<Rightarrow> Inl TypeError
      | Some cx \<Rightarrow>
          (case comment (nodes h ! rootNode) of
             None \<Rightarrow> Inl TypeError
           | Some cr \<Rightarrow>
               if id' cx = id' cr then
                 (case copyNode rootNode h of
                    (n, h') \<Rightarrow> replaceChildren rootNode xs (newChildren @ [n]) h')
               else replaceChildren rootNode xs (newChildren @ [x]) h))"

text \<open>The \<^verbatim>\<open>forEach\<close> of the reply-batch case: the records \<^verbatim>\<open>searchTree\<close> does not find.\<close>

fun newComments :: "nat \<Rightarrow> heap \<Rightarrow> nat \<Rightarrow> Comment list \<Rightarrow> error + Comment list" where
  "newComments k h root [] = Inr []"
| "newComments k h root (c # cs) =
     (case searchTree k h root (id' c) of
        Inl e \<Rightarrow> Inl e
      | Inr found \<Rightarrow>
          (case newComments k h root cs of
             Inl e \<Rightarrow> Inl e
           | Inr rest \<Rightarrow> Inr (if found = None then c # rest else rest)))"

text \<open>\<^verbatim>\<open>{ ...state.items[postId] }\<close>: spreading a missing entry gives an object without fields.\<close>

definition spread_item :: "Item option \<Rightarrow> nat \<Rightarrow> Item" where
  "spread_item e root =
     (case e of
        None \<Rightarrow> \<lparr>comments = root, next = None, zIndexTop = None, fetchedAt = None,
                 lastFetchedAt = None\<rparr>
      | Some it \<Rightarrow> it\<lparr>comments := root\<rparr>)"

definition commentsAdded_case ::
  "nat \<Rightarrow> (nat \<Rightarrow> int) \<Rightarrow> CommentsState \<Rightarrow> payload \<Rightarrow> heap \<Rightarrow> error + CommentsState \<times> heap" where
  "commentsAdded_case k now state pl h =
     (case pl of
        ListPayload postId commentsList nxt \<Rightarrow>
          if postId \<in> set (ids state) then Inr (state, h)
          else
            (case commentsTree k commentsList None h of
               Inl e \<Rightarrow> Inl e
             | Inr (tree, h') \<Rightarrow>
                 Inr (state\<lparr>items := (items state)(postId \<mapsto>
                        \<lparr>comments = tree, next = nxt, zIndexTop = Some defaultCommentZIndex,
                         fetchedAt = Some (now 0), lastFetchedAt = Some (now 1)\<rparr>)\<rparr>, h'))
      | _ \<Rightarrow> Inl BadPayload)"

definition moreCommentsAdded_case ::
  "(nat \<Rightarrow> int) \<Rightarrow> CommentsState \<Rightarrow> payload \<Rightarrow> heap \<Rightarrow> error + CommentsState \<times> heap" where
  "moreCommentsAdded_case now state pl h =
     (case pl of
        TreePayload postId tree nxt \<Rightarrow>
          Inr (state\<lparr>items := [postId \<mapsto>
                 (spread_item (items state postId) tree)\<lparr>next := nxt,
                    lastFetchedAt := Some (now 0)\<rparr>]\<rparr>, h)
      | _ \<Rightarrow> Inl BadPayload)"

definition newCommentAdded_case ::
  "nat \<Rightarrow> CommentsState \<Rightarrow> payload \<Rightarrow> heap \<Rightarrow> error + CommentsState \<times> heap" where
  "newCommentAdded_case k state pl h =
     (case pl of
        CommentPayload postId c \<Rightarrow>
          (case items state postId of
             None \<Rightarrow> Inl TypeError
           | Some it \<Rightarrow>
               (case addComment k (comments it) c h of
                  Inl e \<Rightarrow> Inl e
                | Inr (node, h1) \<Rightarrow>
                    (case parent (nodes h1 ! node) of
                       None \<Rightarrow> Inl TypeError
                     | Some p \<Rightarrow>
                         (case
                            (if parentNotNull h1 p \<and> children (nodes h1 ! comments it) \<noteq> None
                             then
                               (case ascend k h1 node of
                                  Inl e \<Rightarrow> Inl e
                                | Inr rootNode \<Rightarrow>
                                    (case replaceChildren rootNode
                                            (arrays h1 ! the (children (nodes h1 ! comments it))) [] h1 of
                                       Inl e \<Rightarrow> Inl e
                                     | Inr (newChildren, h2) \<Rightarrow>
                                         Inr (False, set_children (comments it) newChildren h2)))
                             else Inr (True, h1)) of
                            Inl e \<Rightarrow> Inl e
                          | Inr (updateZIndex, h3) \<Rightarrow>
                              (case copyNode (comments it) h3 of
                                 (root', h4) \<Rightarrow>
                                   Inr (state\<lparr>items := (items state)(postId \<mapsto>
                                          it\<lparr>comments := root',
                                             zIndexTop :=
                                               (if updateZIndex
                                                then Some (plus_one (zIndexTop it))
                                                else zIndexTop it)\<rparr>)\<rparr>, h4))))))
      | _ \<Rightarrow> Inl BadPayload)"

definition replyCommentsAdded_case ::
  "nat \<Rightarrow> (nat \<Rightarrow> int) \<Rightarrow> CommentsState \<Rightarrow> payload \<Rightarrow> heap \<Rightarrow> error + CommentsState \<times> heap" where
  "replyCommentsAdded_case k now state pl h =
     (case pl of
        ListPayload postId cs _ \<Rightarrow>
          (case items state postId of
             None \<Rightarrow> Inl TypeError
           | Some it \<Rightarrow>
               (case newComments k h (comments it) cs of
                  Inl e \<Rightarrow> Inl e
                | Inr new \<Rightarrow>
                    (case commentsTree k new (Some (comments it)) h of
                       Inl e \<Rightarrow> Inl e
                     | Inr (tree, h1) \<Rightarrow>
                         (case copyNode tree h1 of
                            (root', h2) \<Rightarrow>
                              Inr (state\<lparr>items := (items state)(postId \<mapsto>
                                     it\<lparr>comments := root', lastFetchedAt := Some (now 0)\<rparr>)\<rparr>,
                                   h2)))))
      | _ \<Rightarrow> Inl BadPayload)"

definition commentsLoaded_case ::
  "CommentsState \<Rightarrow> payload \<Rightarrow> heap \<Rightarrow> error + CommentsState \<times> heap" where
  "commentsLoaded_case state pl h =
     (case pl of
        ListPayload postId cs _ \<Rightarrow>
          (case commentsTreePreserveOrder cs h of
             Inl e \<Rightarrow> Inl e
           | Inr (tree, h') \<Rightarrow>
               Inr (state\<lparr>items := (items state)(postId \<mapsto>
                      spread_item (items state postId) tree)\<rparr>, h'))
      | _ \<Rightarrow> Inl BadPayload)"

text \<open>
  \<^verbatim>\<open>commentsReducer\<close>. \<open>k\<close> bounds the loops that walk the stored graph, \<open>now\<close> gives the
  successive readings of \<^verbatim>\<open>Date.now()\<close> during the call. A payload that does not have the
  shape the case casts it to is \<open>Inl BadPayload\<close>.
\<close>

definition commentsReducer ::
  "nat \<Rightarrow> (nat \<Rightarrow> int) \<Rightarrow> CommentsState \<Rightarrow> action \<Rightarrow> heap \<Rightarrow> error + CommentsState \<times> heap" where
  "commentsReducer k now state a h =
     (if type' a = typeCommentsAdded then commentsAdded_case k now state (payload a) h
      else if type' a = typeMoreCommentsAdded then moreCommentsAdded_case now state (payload a) h
      else if type' a = typeNewCommentAdded then newCommentAdded_case k state (payload a) h
      else if type' a = typeReplyCommentsAdded then
        replyCommentsAdded_case k now state (payload a) h
      else if type' a = typeCommentsLoaded then commentsLoaded_case state (payload a) h
      else Inr (state, h))"

text \<open>The action creators.\<close>

definition commentsAdded :: "string \<Rightarrow> Comment list \<Rightarrow> string option \<Rightarrow> action" where
  "commentsAdded postId cs nxt = \<lparr>type' = typeCommentsAdded, payload = ListPayload postId cs nxt\<rparr>"

definition replyCommentsAdded :: "string \<Rightarrow> Comment list \<Rightarrow> action" where
  "replyCommentsAdded postId cs =
     \<lparr>type' = typeReplyCommentsAdded, payload = ListPayload postId cs None\<rparr>"

definition moreCommentsAdded :: "string \<Rightarrow> nat \<Rightarrow> string option \<Rightarrow> action" where
  "moreCommentsAdded postId tree nxt =
     \<lparr>type' = typeMoreCommentsAdded, payload = TreePayload postId tree nxt\<rparr>"

definition commentsLoaded :: "string \<Rightarrow> Comment list \<Rightarrow> action" where
  "commentsLoaded postId cs = \<lparr>type' = typeCommentsLoaded, payload = ListPayload postId cs None\<rparr>"

text \<open>The action \<^verbatim>\<open>newCommentAdded\<close> dispatches to this slice.\<close>

definition newCommentAdded :: "string \<Rightarrow> Comment \<Rightarrow> action" where
  "newCommentAdded postId c = \<lparr>type' = typeNewCommentAdded, payload = CommentPayload postId c\<rparr>"

section \<open>Notions used in the statements\<close>

text \<open>The store before anything is allocated.\<close>

definition empty_heap :: heap where
  "empty_heap = \<lparr>nodes = [], arrays = []\<rparr>"

text \<open>The children sequence of a node, and the id of the comment it holds.\<close>

definition childrenOf :: "heap \<Rightarrow> nat \<Rightarrow> nat list" where
  "childrenOf h n = (case children (nodes h ! n) of None \<Rightarrow> [] | Some ar \<Rightarrow> arrays h ! ar)"

definition idOf :: "heap \<Rightarrow> nat \<Rightarrow> string option" where
  "idOf h n = map_option id' (comment (nodes h ! n))"

text \<open>
  A record is top-level in a batch when its \<^verbatim>\<open>parentId\<close> is absent (or empty), or names no
  record of the batch.
\<close>

definition top_level :: "Comment list \<Rightarrow> Comment \<Rightarrow> bool" where
  "top_level cs c = (\<not> truthy (parentId c) \<or> the (parentId c) \<notin> set (map id' cs))"

text \<open>
  \<open>inherited cs k\<close>: the key \<open>k\<close> is the id of no record of the batch, yet the lookup
  object of \<^verbatim>\<open>commentsTreePreserveOrder\<close> has (or may have) a truthy value for it once the
  first loop has run: \<^verbatim>\<open>__proto__\<close>, the name of a function of \<^verbatim>\<open>Object.prototype\<close>, or, when
  some record has the id \<^verbatim>\<open>__proto__\<close>, the name of one of the fields \<^verbatim>\<open>comment\<close>,
  \<^verbatim>\<open>children\<close> and \<^verbatim>\<open>parent\<close> of its node.
\<close>

definition inherited :: "Comment list \<Rightarrow> string \<Rightarrow> bool" where
  "inherited cs k =
     (k \<notin> set (map id' cs) \<and>
      (k = ''__proto__'' \<or> k \<in> set objectPrototypeNames
       \<or> (''__proto__'' \<in> set (map id' cs) \<and> k \<in> set [''comment'', ''children'', ''parent''])))"

text \<open>
  \<open>at_root cs c\<close>: the record is top-level and its \<^verbatim>\<open>parentId\<close>, if present, is not an
  inherited key.
\<close>

definition at_root :: "Comment list \<Rightarrow> Comment \<Rightarrow> bool" where
  "at_root cs c = (top_level cs c \<and> \<not> (truthy (parentId c) \<and> inherited cs (the (parentId c))))"

text \<open>\<open>last_of cs i\<close>: no record after the \<open>i\<close>-th carries the id of the \<open>i\<close>-th.\<close>

definition last_of :: "Comment list \<Rightarrow> nat \<Rightarrow> bool" where
  "last_of cs i = (i < length cs \<and> id' (cs ! i) \<notin> set (map id' (drop (Suc i) cs)))"

subsection \<open>Intermediate values of commentsTreePreserveOrder\<close>

text \<open>The node the first loop creates for the \<open>i\<close>-th record.\<close>

definition fresh_node :: "nat \<Rightarrow> Comment \<Rightarrow> nat \<Rightarrow> Node" where
  "fresh_node a c i =
     \<lparr>comment = Some c, children = Some (a + i), parent = None, noRepliesRendered = 0,
      collapsed = False\<rparr>"

text \<open>
  One iteration of the second loop, once the node and the value that becomes its parent
  are known; \<open>dest\<close> is that value.
\<close>

definition link :: "nat \<Rightarrow> ref \<Rightarrow> heap \<Rightarrow> heap" where
  "link n r h =
     (case r of NodeRef p \<Rightarrow> push_child p n (set_parent n r h) | OtherObject \<Rightarrow> set_parent n r h)"

definition dest :: "nat \<Rightarrow> NodeMap \<Rightarrow> heap \<Rightarrow> Comment \<Rightarrow> ref" where
  "dest root m h c =
     (if truthy (parentId c) then
        (case getProp h m (the (parentId c)) of
           FoundNode p \<Rightarrow> NodeRef p
         | FoundOther \<Rightarrow> OtherObject
         | Falsy \<Rightarrow> NodeRef root)
      else NodeRef root)"

text \<open>
  The nodes \<^verbatim>\<open>nodeMap\<close> answers with for the keys that were assigned: its own properties,
  and its prototype for the key \<^verbatim>\<open>__proto__\<close>.
\<close>

definition effective :: "NodeMap \<Rightarrow> (string \<rightharpoonup> nat)" where
  "effective m = (own m)(''__proto__'' := proto m)"

text \<open>
  \<open>static m k\<close>: what \<^verbatim>\<open>nodeMap[k]\<close> gives does not change while the second loop runs. The
  one key for which it may is \<^verbatim>\<open>parent\<close>, when it is read from a node that has become the
  prototype. \<open>same_fields h h'\<close>: the nodes of the two stores agree in every field but
  \<^verbatim>\<open>parent\<close>.
\<close>

definition static :: "NodeMap \<Rightarrow> string \<Rightarrow> bool" where
  "static m k = (effective m k \<noteq> None \<or> proto m = None \<or> k \<noteq> ''parent'')"

definition same_fields :: "heap \<Rightarrow> heap \<Rightarrow> bool" where
  "same_fields h h' =
     (\<forall>x. comment (nodes h' ! x) = comment (nodes h ! x)
          \<and> children (nodes h' ! x) = children (nodes h ! x)
          \<and> noRepliesRendered (nodes h' ! x) = noRepliesRendered (nodes h ! x)
          \<and> collapsed (nodes h' ! x) = collapsed (nodes h ! x))"

text \<open>
  \<open>segregated N A h\<close>: the nodes from the \<open>N\<close>-th on have their children arrays from the
  \<open>A\<close>-th on, and their parents, where these are nodes, from the \<open>N\<close>-th on.
\<close>

definition segregated :: "nat \<Rightarrow> nat \<Rightarrow> heap \<Rightarrow> bool" where
  "segregated N A h =
     (\<forall>x. N \<le> x \<and> x < length (nodes h) \<longrightarrow>
        (\<exists>a. children (nodes h ! x) = Some a \<and> A \<le> a)
        \<and> (\<forall>p. parent (nodes h ! x) = Some (NodeRef p) \<longrightarrow> N \<le> p \<and> p < length (nodes h)))"

text \<open>\<^verbatim>\<open>nodeMap\<close> and the store after the first loop; the store after the second.\<close>

definition nodeMapOf :: "Comment list \<Rightarrow> heap \<Rightarrow> NodeMap" where
  "nodeMapOf cs h = fst (createNodes cs emptyObject (snd (newNode None h)))"

definition nodeOf :: "Comment list \<Rightarrow> heap \<Rightarrow> Comment \<Rightarrow> nat" where
  "nodeOf cs h c = (case effective (nodeMapOf cs h) (id' c) of None \<Rightarrow> 0 | Some n \<Rightarrow> n)"

definition allocated :: "Comment list \<Rightarrow> heap \<Rightarrow> heap" where
  "allocated cs h = snd (createNodes cs emptyObject (snd (newNode None h)))"

definition built :: "Comment list \<Rightarrow> heap \<Rightarrow> heap" where
  "built cs h = (case commentsTreePreserveOrder cs h of Inl e \<Rightarrow> h | Inr (r, h') \<Rightarrow> h')"

abbreviation (input) tgt :: "Comment list \<Rightarrow> heap \<Rightarrow> Comment \<Rightarrow> ref" where
  "tgt cs h \<equiv> dest (length (nodes h)) (nodeMapOf cs h) (allocated cs h)"

subsection \<open>Example inputs\<close>

definition root_node :: "nat \<Rightarrow> Node" where
  "root_node ar =
     \<lparr>comment = None, children = Some ar, parent = None, noRepliesRendered = 0,
      collapsed = False\<rparr>"

definition scenario :: "Comment list" where
  "scenario =
     [\<lparr>id' = ''c'', parentId = None, body = []\<rparr>,
      \<lparr>id' = ''a'', parentId = None, body = []\<rparr>,
      \<lparr>id' = ''b'', parentId = Some ''a'', body = []\<rparr>]"

definition two_posts :: CommentsState where
  "two_posts =
     \<lparr>ids = [],
      items = [''p'' \<mapsto> \<lparr>comments = 0, next = Some ''c1'', zIndexTop = Some (Finite 100000),
                          fetchedAt = Some 10, lastFetchedAt = Some 10\<rparr>,
               ''q'' \<mapsto> \<lparr>comments = 1, next = None, zIndexTop = Some (Finite 100000),
                          fetchedAt = Some 20, lastFetchedAt = Some 20\<rparr>]\<rparr>"

definition three_roots :: heap where
  "three_roots = \<lparr>nodes = [root_node 0, root_node 1, root_node 2], arrays = [[], [], []]\<rparr>"

definition once_state :: CommentsState where
  "once_state =
     \<lparr>ids = [],
      items = [''p'' \<mapsto> \<lparr>comments = 0, next = None, zIndexTop = Some (Finite 100000),
                          fetchedAt = Some 1000, lastFetchedAt = Some 1000\<rparr>]\<rparr>"

definition once_heap :: heap where
  "once_heap = \<lparr>nodes = [root_node 0], arrays = [[]]\<rparr>"


text \<open>
  \<open>receives h a r\<close>: pushing onto the children of \<open>r\<close> appends to the array \<open>a\<close>.
  \<open>plain cs\<close>: no \<^verbatim>\<open>parentId\<close> of the batch is an inherited key.
\<close>

definition receives :: "heap \<Rightarrow> nat \<Rightarrow> ref \<Rightarrow> bool" where
  "receives h a r = (case r of NodeRef p \<Rightarrow> children (nodes h ! p) = Some a | OtherObject \<Rightarrow> False)"

definition plain :: "Comment list \<Rightarrow> bool" where
  "plain cs = (\<forall>c\<in>set cs. \<not> (truthy (parentId c) \<and> inherited cs (the (parentId c))))"

subsection \<open>Parent chains and walks\<close>

text \<open>
  \<open>climbs h root k n\<close>: following the \<^verbatim>\<open>parent\<close> links from \<open>n\<close> reaches \<open>root\<close> in at
  most \<open>k\<close> steps.
\<close>

fun climbs :: "heap \<Rightarrow> nat \<Rightarrow> nat \<Rightarrow> nat \<Rightarrow> bool" where
  "climbs h root 0 n = (n = root)"
| "climbs h root (Suc k) n =
     (n = root \<or>
      (case parent (nodes h ! n) of Some (NodeRef p) \<Rightarrow> climbs h root k p | _ \<Rightarrow> False))"

text \<open>
  \<open>resolves cs k c\<close>: following the \<^verbatim>\<open>parentId\<close> references from the record \<open>c\<close> inside the
  batch reaches, in at most \<open>k\<close> steps, a record that is top-level, and no \<^verbatim>\<open>parentId\<close> on
  the way is an inherited key. A reference to an id leads to the last record of the batch
  that carries it. A record that names itself, or a descendant, as its parent never
  resolves.
\<close>

fun resolves :: "Comment list \<Rightarrow> nat \<Rightarrow> Comment \<Rightarrow> bool" where
  "resolves cs 0 c = at_root cs c"
| "resolves cs (Suc k) c =
     (at_root cs c \<or>
      (case find (\<lambda>d. id' d = the (parentId c)) (rev cs) of
         None \<Rightarrow> False
       | Some d \<Rightarrow> resolves cs k d))"

definition depth_is :: "Comment list \<Rightarrow> nat \<Rightarrow> Comment \<Rightarrow> bool" where
  "depth_is cs k c = (c \<in> set cs \<and> resolves cs k c \<and> (\<forall>j<k. \<not> resolves cs j c))"

text \<open>
  \<open>treeNodes k h n\<close>: the nodes met by a walk from \<open>n\<close> that follows the \<^verbatim>\<open>children\<close>
  arrays through at most \<open>k\<close> levels, in the order met; a node met twice is listed twice.
  \<open>listed h M\<close> collects the children sequences of the nodes in \<open>M\<close>.
\<close>

fun treeNodes :: "nat \<Rightarrow> heap \<Rightarrow> nat \<Rightarrow> nat list" where
  "treeNodes 0 h n = []"
| "treeNodes (Suc k) h n = n # concat (map (treeNodes k h) (childrenOf h n))"

definition listed :: "heap \<Rightarrow> nat multiset \<Rightarrow> nat multiset" where
  "listed h M = sum_mset (image_mset (\<lambda>z. mset (childrenOf h z)) M)"

text \<open>A batch whose only record names itself as its parent, and the store built from it.\<close>

definition self_parent :: "Comment list" where
  "self_parent = [\<lparr>id' = ''a'', parentId = Some ''a'', body = []\<rparr>]"

definition self_parent_heap :: heap where
  "self_parent_heap =
     \<lparr>nodes = [root_node 0,
               \<lparr>comment = Some \<lparr>id' = ''a'', parentId = Some ''a'', body = []\<rparr>,
                  children = Some 1, parent = Some (NodeRef 1), noRepliesRendered = 0,
                  collapsed = False\<rparr>],
      arrays = [[], [1]]\<rparr>"

text \<open>
  A batch with a reply to \<^verbatim>\<open>constructor\<close>, which is the id of no record, and the store built
  from it: the reply is below nothing.
\<close>

definition inherited_batch :: "Comment list" where
  "inherited_batch =
     [\<lparr>id' = ''a'', parentId = None, body = []\<rparr>,
      \<lparr>id' = ''d'', parentId = Some ''constructor'', body = []\<rparr>]"

definition inherited_heap :: heap where
  "inherited_heap =
     \<lparr>nodes = [root_node 0,
               \<lparr>comment = Some \<lparr>id' = ''a'', parentId = None, body = []\<rparr>,
                  children = Some 1, parent = Some (NodeRef 0), noRepliesRendered = 0,
                  collapsed = False\<rparr>,
               \<lparr>comment = Some \<lparr>id' = ''d'', parentId = Some ''constructor'', body = []\<rparr>,
                  children = Some 2, parent = Some OtherObject, noRepliesRendered = 0,
                  collapsed = False\<rparr>],
      arrays = [[1], [], []]\<rparr>"

text \<open>A batch in which two records carry the same id, and the store built from it.\<close>

definition twice_batch :: "Comment list" where
  "twice_batch =
     [\<lparr>id' = ''a'', parentId = None, body = ''first''\<rparr>,
      \<lparr>id' = ''a'', parentId = None, body = ''second''\<rparr>]"

definition twice_heap :: heap where
  "twice_heap =
     \<lparr>nodes = [root_node 0,
               \<lparr>comment = Some \<lparr>id' = ''a'', parentId = None, body = ''first''\<rparr>,
                  children = Some 1, parent = None, noRepliesRendered = 0, collapsed = False\<rparr>,
               \<lparr>comment = Some \<lparr>id' = ''a'', parentId = None, body = ''second''\<rparr>,
                  children = Some 2, parent = Some (NodeRef 0), noRepliesRendered = 0,
                  collapsed = False\<rparr>],
      arrays = [[2, 2], [], []]\<rparr>"



text \<open>
  A batch with a record that names itself as its parent, followed by a comment \<open>t\<close> and a
  reply \<open>u\<close> to it.
\<close>

definition mixed_batch :: "Comment list" where
  "mixed_batch =
     [\<lparr>id' = ''a'', parentId = Some ''a'', body = []\<rparr>,
      \<lparr>id' = ''t'', parentId = None, body = []\<rparr>,
      \<lparr>id' = ''u'', parentId = Some ''t'', body = []\<rparr>]"

subsection \<open>Well-formed stores\<close>

text \<open>
  No dangling references: the children array of every node of the store exists and lists
  nodes of the store, and every parent link that points to a node points to a node of the
  store.
\<close>

definition refs_ok :: "heap \<Rightarrow> bool" where
  "refs_ok h =
     (\<forall>x<length (nodes h).
        (case children (nodes h ! x) of
           None \<Rightarrow> True
         | Some ar \<Rightarrow> ar < length (arrays h) \<and> (\<forall>c\<in>set (arrays h ! ar). c < length (nodes h)))
        \<and> (case parent (nodes h ! x) of Some (NodeRef p) \<Rightarrow> p < length (nodes h) | _ \<Rightarrow> True))"

text \<open>The store built from the scenario, and a state whose post \<open>p\<close> holds that tree.\<close>

definition scenario_heap :: heap where
  "scenario_heap =
     \<lparr>nodes =
        [root_node 0,
         \<lparr>comment = Some \<lparr>id' = ''c'', parentId = None, body = []\<rparr>, children = Some 1,
            parent = Some (NodeRef 0), noRepliesRendered = 0, collapsed = False\<rparr>,
         \<lparr>comment = Some \<lparr>id' = ''a'', parentId = None, body = []\<rparr>, children = Some 2,
            parent = Some (NodeRef 0), noRepliesRendered = 0, collapsed = False\<rparr>,
         \<lparr>comment = Some \<lparr>id' = ''b'', parentId = Some ''a'', body = []\<rparr>,
            children = Some 3, parent = Some (NodeRef 2), noRepliesRendered = 0,
            collapsed = False\<rparr>],
      arrays = [[1, 2], [], [3], []]\<rparr>"

definition scenario_state :: CommentsState where
  "scenario_state =
     \<lparr>ids = [],
      items = [''p'' \<mapsto> \<lparr>comments = 0, next = None, zIndexTop = Some (Finite 100000),
                          fetchedAt = Some 1000, lastFetchedAt = Some 1000\<rparr>]\<rparr>"

text \<open>
  A reply \<open>x\<close> to \<open>b\<close>, and the state and store the new-comment event for it leaves behind
  when applied to the scenario's tree.
\<close>

definition reply_x :: Comment where
  "reply_x = \<lparr>id' = ''x'', parentId = Some ''b'', body = []\<rparr>"

definition comment_node :: "Comment \<Rightarrow> nat \<Rightarrow> nat \<Rightarrow> Node" where
  "comment_node c ar p =
     \<lparr>comment = Some c, children = Some ar, parent = Some (NodeRef p), noRepliesRendered = 0,
      collapsed = False\<rparr>"

definition after_reply_heap :: heap where
  "after_reply_heap =
     \<lparr>nodes =
        [root_node 5,
         comment_node \<lparr>id' = ''c'', parentId = None, body = []\<rparr> 1 0,
         comment_node \<lparr>id' = ''a'', parentId = None, body = []\<rparr> 2 0,
         comment_node \<lparr>id' = ''b'', parentId = Some ''a'', body = []\<rparr> 3 2,
         comment_node reply_x 4 3,
         comment_node \<lparr>id' = ''a'', parentId = None, body = []\<rparr> 2 0,
         root_node 5],
      arrays = [[1, 2], [], [3], [4], [], [1, 5]]\<rparr>"

definition after_reply_state :: CommentsState where
  "after_reply_state =
     \<lparr>ids = [],
      items = [''p'' \<mapsto> \<lparr>comments = 6, next = None, zIndexTop = Some (Finite 100000),
                          fetchedAt = Some 1000, lastFetchedAt = Some 1000\<rparr>]\<rparr>"

text \<open>
  \<open>same_but_children n n'\<close>: the two node values agree in every field but \<^verbatim>\<open>children\<close>.
\<close>

definition same_but_children :: "Node \<Rightarrow> Node \<Rightarrow> bool" where
  "same_but_children n n' =
     (comment n' = comment n \<and> parent n' = parent n
      \<and> noRepliesRendered n' = noRepliesRendered n \<and> collapsed n' = collapsed n)"

text \<open>
  \<open>kept s N A g g'\<close>: from \<open>g\<close> to \<open>g'\<close> the store has only grown as far as the first \<open>N\<close>
  nodes and the first \<open>A\<close> arrays are concerned. Each of these nodes keeps its comment, its
  parent and its flags, and its \<^verbatim>\<open>children\<close> field is the same or refers to an array that
  is not among the first \<open>A\<close>; when \<open>s\<close> holds, the latter only for a node that had no
  children array. Each of these arrays keeps its elements, in order, and what has been
  appended are nodes that are not among the first \<open>N\<close>.
\<close>

definition kept :: "bool \<Rightarrow> nat \<Rightarrow> nat \<Rightarrow> heap \<Rightarrow> heap \<Rightarrow> bool" where
  "kept s N A g g' =
     (length (nodes g) \<le> length (nodes g') \<and> length (arrays g) \<le> length (arrays g')
      \<and> (\<forall>x<N. same_but_children (nodes g ! x) (nodes g' ! x)
                \<and> (children (nodes g' ! x) = children (nodes g ! x)
                     \<or> ((s \<longrightarrow> children (nodes g ! x) = None)
                         \<and> (\<exists>a\<ge>A. children (nodes g' ! x) = Some a))))
      \<and> (\<forall>a<A. \<exists>ys. arrays g' ! a = arrays g ! a @ ys \<and> (\<forall>y\<in>set ys. N \<le> y)))"

text \<open>
  \<open>grown h h'\<close>: all nodes and arrays of \<open>h\<close> are kept in this sense. \<open>appended h h'\<close>: they
  are, and no node of \<open>h\<close> that had a children array has another one in \<open>h'\<close>.
\<close>

definition grown :: "heap \<Rightarrow> heap \<Rightarrow> bool" where
  "grown h h' = kept False (length (nodes h)) (length (arrays h)) h h'"

definition appended :: "heap \<Rightarrow> heap \<Rightarrow> bool" where
  "appended h h' = kept True (length (nodes h)) (length (arrays h)) h h'"

text \<open>
  \<open>one_insertion h r p h'\<close>: from \<open>h\<close> to \<open>h'\<close> one node, the first after those of \<open>h\<close>,
  has been inserted below \<open>p\<close> in a tree with root \<open>r\<close>. The children array of \<open>p\<close> has that
  node appended and every other array of \<open>h\<close> is as it was. Every node of \<open>h\<close> is as it
  was, with two exceptions: \<open>p\<close> if it had no children array, and \<open>r\<close> if \<open>p\<close> has a parent
  (the insertion is not at the top level); these keep their comment, parent and flags,
  and their \<^verbatim>\<open>children\<close> field is the same or refers to an array that is not in \<open>h\<close>.
\<close>

definition one_insertion :: "heap \<Rightarrow> nat \<Rightarrow> nat \<Rightarrow> heap \<Rightarrow> bool" where
  "one_insertion h r p h' =
     ((\<forall>x<length (nodes h).
         ((x \<noteq> r \<or> parent (nodes h ! p) = None) \<and> (x \<noteq> p \<or> children (nodes h ! p) \<noteq> None)
            \<longrightarrow> nodes h' ! x = nodes h ! x)
         \<and> same_but_children (nodes h ! x) (nodes h' ! x)
         \<and> (children (nodes h' ! x) = children (nodes h ! x)
              \<or> (\<exists>a\<ge>length (arrays h). children (nodes h' ! x) = Some a)))
      \<and> (\<forall>a<length (arrays h).
            arrays h' ! a =
              arrays h ! a @ (if children (nodes h ! p) = Some a then [length (nodes h)] else [])))"

text \<open>
  The store after the reply-batch event for the one new reply \<open>x\<close> on the scenario's
  tree.
\<close>

definition after_batch_heap :: heap where
  "after_batch_heap =
     \<lparr>nodes =
        [root_node 0,
         comment_node \<lparr>id' = ''c'', parentId = None, body = []\<rparr> 1 0,
         comment_node \<lparr>id' = ''a'', parentId = None, body = []\<rparr> 2 0,
         comment_node \<lparr>id' = ''b'', parentId = Some ''a'', body = []\<rparr> 3 2,
         comment_node reply_x 4 3,
         root_node 0],
      arrays = [[1, 2], [], [3], [4], []]\<rparr>"

text \<open>
  A state whose tree for \<open>p\<close> is a root without a children array, and the store after a
  new top-level comment.
\<close>

definition bare_heap :: heap where
  "bare_heap =
     \<lparr>nodes = [\<lparr>comment = None, children = None, parent = None, noRepliesRendered = 0,
                 collapsed = False\<rparr>],
      arrays = []\<rparr>"

definition after_bare_heap :: heap where
  "after_bare_heap =
     \<lparr>nodes = [root_node 1,
               \<lparr>comment = Some \<lparr>id' = ''y'', parentId = None, body = []\<rparr>, children = Some 0,
                  parent = Some (NodeRef 0), noRepliesRendered = 0, collapsed = False\<rparr>,
               root_node 1],
      arrays = [[], [1]]\<rparr>"

text \<open>
  A store that holds comment trees: no dangling references; a node with a parent link
  holds a comment; every node listed in a children array has a parent link; and a
  children array is shared only by nodes holding the same comment (an object and its
  shallow copies). \<open>listed_in h q\<close>: the node \<open>q\<close> occurs in the children array of some
  node.
\<close>

definition tree_ok :: "heap \<Rightarrow> bool" where
  "tree_ok h =
     (refs_ok h \<and>
      (\<forall>x<length (nodes h).
         (parent (nodes h ! x) \<noteq> None \<longrightarrow> comment (nodes h ! x) \<noteq> None)
         \<and> (\<forall>ar. children (nodes h ! x) = Some ar \<longrightarrow>
               (\<forall>c\<in>set (arrays h ! ar). parent (nodes h ! c) \<noteq> None)
               \<and> (\<forall>y<length (nodes h). children (nodes h ! y) = Some ar
                      \<longrightarrow> comment (nodes h ! y) = comment (nodes h ! x)))))"

definition listed_in :: "heap \<Rightarrow> nat \<Rightarrow> bool" where
  "listed_in h q =
     (\<exists>x<length (nodes h). \<exists>ar. children (nodes h ! x) = Some ar \<and> q \<in> set (arrays h ! ar))"


text \<open>The store after \<^verbatim>\<open>addComment\<close> has appended a node for \<open>c\<close> below \<open>p\<close>.\<close>

definition inserted :: "nat \<Rightarrow> Comment \<Rightarrow> heap \<Rightarrow> heap" where
  "inserted p c h = append_child p (length (nodes h)) (snd (newNode (Some c) h))"

text \<open>A new top-level comment.\<close>

definition top_y :: Comment where
  "top_y = \<lparr>id' = ''y'', parentId = None, body = []\<rparr>"

text \<open>
  A state whose entry for \<open>p\<close> was created by the full-reload event (it has no
  \<^verbatim>\<open>zIndexTop\<close>), and one whose \<^verbatim>\<open>zIndexTop\<close> has reached \<open>2 ^ 53\<close>.
\<close>

definition loaded_state :: CommentsState where
  "loaded_state =
     \<lparr>ids = [],
      items = [''p'' \<mapsto> \<lparr>comments = 0, next = None, zIndexTop = None, fetchedAt = None,
                          lastFetchedAt = None\<rparr>]\<rparr>"


section \<open>The two loops of commentsTreePreserveOrder\<close>

lemma newNode_simps:
  "fst (newNode c h) = length (nodes h)"
  "nodes (snd (newNode c h)) = nodes h @ [\<lparr>comment = c, children = Some (length (arrays h)), parent = None, noRepliesRendered = 0, collapsed = False\<rparr>]"
  "arrays (snd (newNode c h)) = arrays h @ [[]]"
  by (simp_all add: newNode_def)

subsection \<open>The lookup object\<close>

lemma setProp_effective: "effective (setProp m k n) = (effective m)(k \<mapsto> n)"
  by (rule ext) (simp add: effective_def setProp_def)

lemma getProp_effective: "effective m k = Some n \<Longrightarrow> getProp h m k = FoundNode n"
  by (auto simp: effective_def getProp_def split: if_splits)

lemma proto_effective: "proto m = effective m ''__proto__''"
  by (simp add: effective_def)

lemma getProp_FoundNode:
  "getProp h m k = FoundNode p \<Longrightarrow>
     effective m k = Some p \<or> (\<exists>q. proto m = Some q \<and> parent (nodes h ! q) = Some (NodeRef p))"
  by (auto simp: getProp_def effective_def split: if_splits option.splits ref.splits)

lemma getProp_static:
  assumes "same_fields h h'" "static m k"
  shows "getProp h' m k = getProp h m k"
proof (cases "effective m k")
  case (Some n)
  then show ?thesis by (simp add: getProp_effective)
next
  case None
  with assms(2) have "proto m = None \<or> k \<noteq> ''parent''" by (simp add: static_def)
  then show ?thesis
  proof
    assume "proto m = None"
    then show ?thesis by (simp add: getProp_def split: option.splits)
  next
    assume "k \<noteq> ''parent''"
    then show ?thesis using assms(1) by (simp add: getProp_def same_fields_def split: option.splits)
  qed
qed

lemma dest_static:
  "same_fields h h' \<Longrightarrow> truthy (parentId c) \<longrightarrow> static m (the (parentId c))
     \<Longrightarrow> dest root m h' c = dest root m h c"
  by (simp add: dest_def getProp_static)

lemma same_fields_refl: "same_fields h h"
  by (simp add: same_fields_def)

lemma same_fields_trans: "same_fields h h1 \<Longrightarrow> same_fields h1 h2 \<Longrightarrow> same_fields h h2"
  by (simp add: same_fields_def)

subsection \<open>The first loop\<close>

lemma createNodes_nodes:
  "createNodes cs m h = (m', h') \<Longrightarrow>
     nodes h' = nodes h @ map (\<lambda>i. fresh_node (length (arrays h)) (cs ! i) i) [0..<length cs]
   \<and> arrays h' = arrays h @ replicate (length cs) []"
proof (induction cs arbitrary: m h)
  case Nil
  then show ?case by simp
next
  case (Cons c cs)
  obtain n h1 where nn: "newNode (Some c) h = (n, h1)" by (cases "newNode (Some c) h")
  have h1: "nodes h1 = nodes h @ [fresh_node (length (arrays h)) c 0]" "arrays h1 = arrays h @ [[]]"
    using nn by (auto simp: newNode_def fresh_node_def)
  from Cons.prems nn have "createNodes cs (setProp m (id' c) n) h1 = (m', h')" by simp
  from Cons.IH[OF this] h1
  have a: "nodes h' = (nodes h @ [fresh_node (length (arrays h)) c 0]) @ map (\<lambda>i. fresh_node (Suc (length (arrays h))) (cs ! i) i) [0..<length cs]"
    and b: "arrays h' = (arrays h @ [[]]) @ replicate (length cs) []" by simp_all
  have "map (\<lambda>i. fresh_node (length (arrays h)) ((c # cs) ! i) i) [0..<length (c # cs)]
      = fresh_node (length (arrays h)) c 0 # map (\<lambda>i. fresh_node (Suc (length (arrays h))) (cs ! i) i) [0..<length cs]"
    by (simp add: upt_conv_Cons fresh_node_def map_Suc_upt[symmetric] del: upt_Suc)
  with a b show ?case by (simp add: replicate_append_same)
qed

lemma createNodes_map_other:
  "createNodes cs m h = (m', h') \<Longrightarrow> s \<notin> id' ` set cs \<Longrightarrow> effective m' s = effective m s"
  by (induction cs arbitrary: m h) (auto simp: newNode_def setProp_effective)

lemma createNodes_map_last:
  "createNodes cs m h = (m', h') \<Longrightarrow> last_of cs i \<Longrightarrow>
     effective m' (id' (cs ! i)) = Some (length (nodes h) + i)"
proof (induction cs arbitrary: m h i)
  case Nil
  then show ?case by (simp add: last_of_def)
next
  case (Cons d cs)
  let ?h1 = "snd (newNode (Some d) h)"
  have run: "createNodes cs (setProp m (id' d) (length (nodes h))) ?h1 = (m', h')"
    using Cons.prems(1) by (simp add: newNode_def)
  have len: "length (nodes ?h1) = Suc (length (nodes h))" by (simp add: newNode_def)
  show ?case
  proof (cases i)
    case 0
    have "id' d \<notin> id' ` set cs" using Cons.prems(2) 0 by (simp add: last_of_def)
    from createNodes_map_other[OF run this] 0 show ?thesis by (simp add: setProp_effective)
  next
    case (Suc j)
    with Cons.prems(2) have "last_of cs j" by (simp add: last_of_def)
    from Cons.IH[OF run this] Suc len show ?thesis by simp
  qed
qed

lemma last_of_exists: "c \<in> set cs \<Longrightarrow> \<exists>i. last_of cs i \<and> id' (cs ! i) = id' c"
proof (induction cs arbitrary: c)
  case Nil
  then show ?case by simp
next
  case (Cons d cs)
  show ?case
  proof (cases "id' c \<in> id' ` set cs")
    case True
    then obtain e where "e \<in> set cs" "id' e = id' c" by auto
    with Cons.IH[of e] obtain i where "last_of cs i" "id' (cs ! i) = id' c" by auto
    then have "last_of (d # cs) (Suc i) \<and> id' ((d # cs) ! Suc i) = id' c"
      by (simp add: last_of_def)
    then show ?thesis by blast
  next
    case False
    with Cons.prems have "c = d" by auto
    with False have "last_of (d # cs) 0 \<and> id' ((d # cs) ! 0) = id' c"
      by (simp add: last_of_def)
    then show ?thesis by blast
  qed
qed

lemma last_of_distinct: "distinct (map id' cs) \<Longrightarrow> i < length cs \<Longrightarrow> last_of cs i"
proof -
  assume d: "distinct (map id' cs)" and i: "i < length cs"
  have "cs = take i cs @ cs ! i # drop (Suc i) cs" using i by (rule id_take_nth_drop)
  then have "distinct (map id' (take i cs @ cs ! i # drop (Suc i) cs))" using d by simp
  then show ?thesis using i by (simp add: last_of_def)
qed

lemma last_of_unique: "last_of cs i \<Longrightarrow> last_of cs j \<Longrightarrow> id' (cs ! i) = id' (cs ! j) \<Longrightarrow> i = j"
proof (rule ccontr)
  assume a: "last_of cs i" "last_of cs j" "id' (cs ! i) = id' (cs ! j)" and ne: "i \<noteq> j"
  have aux: "\<And>a b. last_of cs a \<Longrightarrow> b < length cs \<Longrightarrow> a < b \<Longrightarrow> id' (cs ! a) \<noteq> id' (cs ! b)"
  proof -
    fix a b assume l: "last_of cs a" and b: "b < length cs" and ab: "a < b"
    have "cs ! b = drop (Suc a) cs ! (b - Suc a)" using ab b by simp
    moreover have "b - Suc a < length (drop (Suc a) cs)" using ab b by simp
    ultimately have "cs ! b \<in> set (drop (Suc a) cs)" by (metis nth_mem)
    then show "id' (cs ! a) \<noteq> id' (cs ! b)" using l by (auto simp: last_of_def)
  qed
  from ne consider "i < j" | "j < i" by arith
  then show False
  proof cases
    case 1
    from aux[OF a(1) _ 1] a(2,3) show False by (simp add: last_of_def)
  next
    case 2
    from aux[OF a(2) _ 2] a(1,3) show False by (simp add: last_of_def)
  qed
qed

subsection \<open>The second loop\<close>

lemma nth_parent_update:
  "(xs[n := (xs ! n)\<lparr>parent := v\<rparr>]) ! p =
     (if p = n \<and> n < length xs then (xs ! n)\<lparr>parent := v\<rparr> else xs ! p)"
proof (cases "n < length xs")
  case True
  then show ?thesis by (simp add: nth_list_update)
next
  case False
  then show ?thesis by (simp add: list_update_beyond)
qed

lemma children_parent_update:
  "children ((xs[n := (xs ! n)\<lparr>parent := v\<rparr>]) ! p) = children (xs ! p)"
  "comment ((xs[n := (xs ! n)\<lparr>parent := v\<rparr>]) ! p) = comment (xs ! p)"
  "noRepliesRendered ((xs[n := (xs ! n)\<lparr>parent := v\<rparr>]) ! p) = noRepliesRendered (xs ! p)"
  "collapsed ((xs[n := (xs ! n)\<lparr>parent := v\<rparr>]) ! p) = collapsed (xs ! p)"
  by (simp_all add: nth_parent_update)

lemma link_nodes: "nodes (link n r h) = (nodes h)[n := (nodes h ! n)\<lparr>parent := Some r\<rparr>]"
  by (simp add: link_def push_child_def set_parent_def children_parent_update
        split: option.splits ref.splits)

lemma link_arrays_length: "length (arrays (link n r h)) = length (arrays h)"
  by (simp add: link_def push_child_def set_parent_def children_parent_update
        split: option.splits ref.splits)

lemma link_arrays:
  "a < length (arrays h) \<Longrightarrow>
     arrays (link n r h) ! a = arrays h ! a @ (if receives h a r then [n] else [])"
  by (auto simp: link_def receives_def push_child_def set_parent_def children_parent_update
        nth_list_update split: option.splits ref.splits)

lemma link_arrays_other:
  "\<not> receives h a r \<Longrightarrow> arrays (link n r h) ! a = arrays h ! a"
  by (auto simp: link_def receives_def push_child_def set_parent_def children_parent_update
        nth_list_update split: option.splits ref.splits)

lemma link_commute: "set_parent n (NodeRef p) (push_child p n h) = link n (NodeRef p) h"
  by (simp add: link_def push_child_def set_parent_def children_parent_update split: option.splits)

lemma link_same_fields: "same_fields h (link n r h)"
  by (simp add: same_fields_def link_nodes children_parent_update)

lemma attach_link:
  "effective m (id' c) = Some n \<Longrightarrow> attach root m c h = Inr (link n (dest root m h c) h)"
  by (simp add: attach_def dest_def getProp_effective link_commute split: looked.splits)
     (simp add: link_def)

lemma attachAll_returns:
  "\<forall>c\<in>set cs. effective m (id' c) = Some (nd c) \<Longrightarrow> \<exists>h'. attachAll root m cs h = Inr h'"
  by (induction cs arbitrary: h) (simp_all add: attach_link)

lemma attachAll_append:
  "attachAll root m (xs @ ys) h =
     (case attachAll root m xs h of Inl e \<Rightarrow> Inl e | Inr h1 \<Rightarrow> attachAll root m ys h1)"
  by (induction xs arbitrary: h) (simp_all split: sum.splits)

lemma attachAll_frame:
  assumes "\<forall>c\<in>set cs. effective m (id' c) = Some (nd c)" "attachAll root m cs h = Inr h'"
  shows "length (nodes h') = length (nodes h) \<and> length (arrays h') = length (arrays h)
       \<and> same_fields h h'"
  using assms
proof (induction cs arbitrary: h)
  case Nil
  then show ?case by (simp add: same_fields_refl)
next
  case (Cons c cs)
  let ?h1 = "link (nd c) (dest root m h c) h"
  have run: "attachAll root m cs ?h1 = Inr h'" using Cons.prems by (simp add: attach_link)
  have ih: "length (nodes h') = length (nodes ?h1) \<and> length (arrays h') = length (arrays ?h1)
       \<and> same_fields ?h1 h'"
    using Cons.IH[OF _ run] Cons.prems(1) by simp
  have "length (nodes ?h1) = length (nodes h)" "length (arrays ?h1) = length (arrays h)"
    by (simp_all add: link_nodes link_arrays_length)
  with ih same_fields_trans[OF link_same_fields] show ?case by auto
qed

lemma attachAll_parent_other:
  assumes "\<forall>c\<in>set cs. effective m (id' c) = Some (nd c)" "attachAll root m cs h = Inr h'"
    "\<forall>c\<in>set cs. nd c \<noteq> x"
  shows "nodes h' ! x = nodes h ! x"
  using assms
proof (induction cs arbitrary: h)
  case Nil
  then show ?case by simp
next
  case (Cons c cs)
  let ?h1 = "link (nd c) (dest root m h c) h"
  have md: "effective m (id' c) = Some (nd c)"
    and mcs: "\<forall>c\<in>set cs. effective m (id' c) = Some (nd c)"
    using Cons.prems(1) by simp_all
  have ne: "nd c \<noteq> x" and nes: "\<forall>c\<in>set cs. nd c \<noteq> x"
    using Cons.prems(3) by simp_all
  have run: "attachAll root m cs ?h1 = Inr h'"
    using Cons.prems(2) md by (simp add: attach_link)
  have "nodes h' ! x = nodes ?h1 ! x" by (rule Cons.IH[OF mcs run nes])
  also have "\<dots> = nodes h ! x" using ne by (simp add: link_nodes)
  finally show ?case .
qed


text \<open>
  The record processed last among those that share a node decides the parent of the
  node, and what it pushes stays where it was pushed.
\<close>

lemma attachAll_split:
  assumes "\<forall>d\<in>set (pre @ c # post). effective m (id' d) = Some (nd d)"
    and "attachAll root m (pre @ c # post) h = Inr h'"
    and "truthy (parentId c) \<longrightarrow> static m (the (parentId c))"
  shows "\<exists>h1. attachAll root m pre h = Inr h1 \<and> same_fields h h1
           \<and> length (nodes h1) = length (nodes h) \<and> length (arrays h1) = length (arrays h)
           \<and> attachAll root m post (link (nd c) (dest root m h c) h1) = Inr h'"
proof -
  have mpre: "\<forall>d\<in>set pre. effective m (id' d) = Some (nd d)" using assms(1) by simp
  from attachAll_returns[OF mpre] obtain h1 where h1: "attachAll root m pre h = Inr h1" by blast
  from attachAll_frame[OF mpre h1] have f: "same_fields h h1"
    "length (nodes h1) = length (nodes h)" "length (arrays h1) = length (arrays h)" by simp_all
  have "effective m (id' c) = Some (nd c)" using assms(1) by simp
  then have "attachAll root m post (link (nd c) (dest root m h1 c) h1) = Inr h'"
    using assms(2) h1 by (simp add: attachAll_append attach_link)
  then show ?thesis using h1 f dest_static[OF f(1) assms(3)] by simp
qed

lemma attachAll_parent_last:
  assumes "\<forall>d\<in>set (pre @ c # post). effective m (id' d) = Some (nd d)"
    and "attachAll root m (pre @ c # post) h = Inr h'"
    and "truthy (parentId c) \<longrightarrow> static m (the (parentId c))"
    and "nd c < length (nodes h)" and "\<forall>d\<in>set post. nd d \<noteq> nd c"
  shows "parent (nodes h' ! nd c) = Some (dest root m h c)"
proof -
  from attachAll_split[OF assms(1-3)] obtain h1 where
    h1: "length (nodes h1) = length (nodes h)"
      "attachAll root m post (link (nd c) (dest root m h c) h1) = Inr h'" by blast
  have mpost: "\<forall>d\<in>set post. effective m (id' d) = Some (nd d)" using assms(1) by simp
  have "nodes h' ! nd c = nodes (link (nd c) (dest root m h c) h1) ! nd c"
    by (rule attachAll_parent_other[OF mpost h1(2) assms(5)])
  then show ?thesis using assms(4) h1(1) by (simp add: link_nodes)
qed


lemma attachAll_arrays:
  assumes "\<forall>c\<in>set cs. effective m (id' c) = Some (nd c)" "attachAll root m cs h = Inr h'"
    "a < length (arrays h)" "\<forall>c\<in>set cs. truthy (parentId c) \<longrightarrow> static m (the (parentId c))"
  shows "arrays h' ! a = arrays h ! a @ map nd (filter (\<lambda>c. receives h a (dest root m h c)) cs)"
  using assms
proof (induction cs arbitrary: h)
  case Nil
  then show ?case by simp
next
  case (Cons c cs)
  let ?h1 = "link (nd c) (dest root m h c) h"
  have run: "attachAll root m cs ?h1 = Inr h'" using Cons.prems by (simp add: attach_link)
  have len: "a < length (arrays ?h1)" using Cons.prems(3) by (simp add: link_arrays_length)
  have sf: "same_fields h ?h1" by (rule link_same_fields)
  have st: "\<forall>c\<in>set cs. truthy (parentId c) \<longrightarrow> static m (the (parentId c))"
    using Cons.prems(4) by simp
  have same: "receives ?h1 a (dest root m ?h1 d) = receives h a (dest root m h d)"
    if "d \<in> set cs" for d
  proof -
    have "dest root m ?h1 d = dest root m h d" using dest_static[OF sf] st that by blast
    then show ?thesis using sf by (simp add: receives_def same_fields_def split: ref.splits)
  qed
  have "arrays h' ! a = arrays ?h1 ! a @ map nd (filter (\<lambda>c. receives ?h1 a (dest root m ?h1 c)) cs)"
    using Cons.IH[OF _ run len st] Cons.prems(1) by simp
  also have "filter (\<lambda>c. receives ?h1 a (dest root m ?h1 c)) cs
               = filter (\<lambda>c. receives h a (dest root m h c)) cs"
    by (rule filter_cong) (simp_all add: same)
  finally show ?case using link_arrays[OF Cons.prems(3), of "nd c" "dest root m h c"] by simp
qed

text \<open>The second loop touches nothing that existed before the call.\<close>

lemma link_segregated:
  assumes "segregated N A h" "N \<le> n" "\<forall>p. r = NodeRef p \<longrightarrow> N \<le> p \<and> p < length (nodes h)"
  shows "segregated N A (link n r h) \<and> take N (nodes (link n r h)) = take N (nodes h)
       \<and> take A (arrays (link n r h)) = take A (arrays h)"
proof -
  have s: "segregated N A (link n r h)"
    unfolding segregated_def
  proof (intro allI impI conjI)
    fix x assume x: "N \<le> x \<and> x < length (nodes (link n r h))"
    then have x': "N \<le> x \<and> x < length (nodes h)" by (simp add: link_nodes)
    from assms(1) x' have old: "(\<exists>a. children (nodes h ! x) = Some a \<and> A \<le> a)
        \<and> (\<forall>p. parent (nodes h ! x) = Some (NodeRef p) \<longrightarrow> N \<le> p \<and> p < length (nodes h))"
      unfolding segregated_def by blast
    then show "\<exists>a. children (nodes (link n r h) ! x) = Some a \<and> A \<le> a"
      by (simp only: link_nodes children_parent_update)
    fix p assume p: "parent (nodes (link n r h) ! x) = Some (NodeRef p)"
    show "N \<le> p" "p < length (nodes (link n r h))"
    proof -
      have "N \<le> p \<and> p < length (nodes h)"
      proof (cases "x = n")
        case True
        with p x' have "r = NodeRef p" by (simp add: link_nodes)
        with assms(3) show ?thesis by blast
      next
        case False
        with p have "parent (nodes h ! x) = Some (NodeRef p)"
          by (simp add: link_nodes nth_parent_update)
        with old show ?thesis by blast
      qed
      then show "N \<le> p" "p < length (nodes (link n r h))" by (simp_all add: link_nodes)
    qed
  qed
  have n: "take N (nodes (link n r h)) = take N (nodes h)"
    using assms(2) by (simp add: link_nodes)
  have a: "take A (arrays (link n r h)) = take A (arrays h)"
  proof (cases r)
    case OtherObject
    then show ?thesis by (simp add: link_def set_parent_def)
  next
    case (NodeRef p)
    with assms(3) have p: "N \<le> p" "p < length (nodes h)" by simp_all
    with assms(1) obtain ar where "children (nodes h ! p) = Some ar" "A \<le> ar"
      unfolding segregated_def by blast
    then show ?thesis using NodeRef
      by (simp add: link_def push_child_def set_parent_def children_parent_update)
  qed
  from s n a show ?thesis by simp
qed

lemma dest_range:
  assumes "segregated N A h" "\<forall>k n. effective m k = Some n \<longrightarrow> N \<le> n \<and> n < length (nodes h)"
    "N \<le> root" "root < length (nodes h)" "dest root m h c = NodeRef p"
  shows "N \<le> p \<and> p < length (nodes h)"
proof (cases "truthy (parentId c)")
  case False
  with assms(3-5) show ?thesis by (simp add: dest_def)
next
  case True
  show ?thesis
  proof (cases "getProp h m (the (parentId c))")
    case Falsy
    with True assms(3-5) show ?thesis by (simp add: dest_def)
  next
    case FoundOther
    with True assms(5) show ?thesis by (simp add: dest_def)
  next
    case (FoundNode x)
    with True assms(5) have px: "x = p" by (simp add: dest_def)
    from getProp_FoundNode[OF FoundNode] px consider
      "effective m (the (parentId c)) = Some p"
      | q where "proto m = Some q" "parent (nodes h ! q) = Some (NodeRef p)" by blast
    then show ?thesis
    proof cases
      case 1
      with assms(2) show ?thesis by blast
    next
      case 2
      from 2(1) have "effective m ''__proto__'' = Some q" by (simp add: proto_effective)
      with assms(2) have "N \<le> q \<and> q < length (nodes h)" by blast
      with assms(1) 2(2) show ?thesis unfolding segregated_def by blast
    qed
  qed
qed

lemma attachAll_segregated:
  assumes "\<forall>c\<in>set cs. effective m (id' c) = Some (nd c)" "attachAll root m cs h = Inr h'"
    "segregated N A h" "\<forall>k n. effective m k = Some n \<longrightarrow> N \<le> n \<and> n < length (nodes h)"
    "N \<le> root" "root < length (nodes h)"
  shows "take N (nodes h') = take N (nodes h) \<and> take A (arrays h') = take A (arrays h)"
  using assms
proof (induction cs arbitrary: h)
  case Nil
  then show ?case by simp
next
  case (Cons c cs)
  let ?h1 = "link (nd c) (dest root m h c) h"
  have mc: "effective m (id' c) = Some (nd c)" using Cons.prems(1) by simp
  have run: "attachAll root m cs ?h1 = Inr h'" using Cons.prems(2) mc by (simp add: attach_link)
  have n: "N \<le> nd c" using mc Cons.prems(4) by blast
  have d: "\<forall>p. dest root m h c = NodeRef p \<longrightarrow> N \<le> p \<and> p < length (nodes h)"
    using dest_range[OF Cons.prems(3,4,5,6)] by blast
  from link_segregated[OF Cons.prems(3) n d]
  have s: "segregated N A ?h1" "take N (nodes ?h1) = take N (nodes h)"
    "take A (arrays ?h1) = take A (arrays h)" by simp_all
  have len: "length (nodes ?h1) = length (nodes h)" by (simp add: link_nodes)
  have "take N (nodes h') = take N (nodes ?h1) \<and> take A (arrays h') = take A (arrays ?h1)"
    using Cons.IH[OF _ run s(1)] Cons.prems(1,4,5,6) len by simp
  with s show ?case by simp
qed

subsection \<open>The store that is returned\<close>

lemma createNodes_pair:
  "createNodes cs emptyObject (snd (newNode None h)) = (nodeMapOf cs h, allocated cs h)"
  by (simp add: nodeMapOf_def allocated_def)

lemma allocated_nodes:
  "nodes (allocated cs h) =
     nodes h @ \<lparr>comment = None, children = Some (length (arrays h)), parent = None,
                noRepliesRendered = 0, collapsed = False\<rparr>
       # map (\<lambda>i. fresh_node (Suc (length (arrays h))) (cs ! i) i) [0..<length cs]"
  using createNodes_nodes[OF createNodes_pair, of cs h] by (simp add: newNode_def)

lemma allocated_arrays:
  "arrays (allocated cs h) = arrays h @ replicate (Suc (length cs)) []"
  using createNodes_nodes[OF createNodes_pair, of cs h] by (simp add: newNode_def replicate_append_same)

lemma allocated_root:
  "nodes (allocated cs h) ! length (nodes h) =
     \<lparr>comment = None, children = Some (length (arrays h)), parent = None,
      noRepliesRendered = 0, collapsed = False\<rparr>"
  by (simp add: allocated_nodes)

lemma allocated_node:
  "i < length cs \<Longrightarrow>
     nodes (allocated cs h) ! (Suc (length (nodes h) + i)) = fresh_node (Suc (length (arrays h))) (cs ! i) i"
  by (simp add: allocated_nodes nth_append)

lemma allocated_old: "x < length (nodes h) \<Longrightarrow> nodes (allocated cs h) ! x = nodes h ! x"
  by (simp add: allocated_nodes nth_append)

lemma effective_empty: "effective emptyObject k = None"
  by (simp add: effective_def emptyObject_def)

lemma nodeMapOf_None: "s \<notin> id' ` set cs \<Longrightarrow> effective (nodeMapOf cs h) s = None"
  using createNodes_map_other[OF createNodes_pair, of s cs h] by (simp add: effective_empty)

lemma nodeMapOf_last:
  "last_of cs i \<Longrightarrow> effective (nodeMapOf cs h) (id' (cs ! i)) = Some (Suc (length (nodes h) + i))"
  using createNodes_map_last[OF createNodes_pair, of cs i h] by (simp add: newNode_def)

lemma nodeMapOf_Some:
  assumes "c \<in> set cs"
  shows "\<exists>i. last_of cs i \<and> effective (nodeMapOf cs h) (id' c) = Some (Suc (length (nodes h) + i))
           \<and> id' (cs ! i) = id' c"
proof -
  from last_of_exists[OF assms] obtain i where i: "last_of cs i" "id' (cs ! i) = id' c" by blast
  from nodeMapOf_last[OF i(1), of h] i show ?thesis by auto
qed

lemma nodeMapOf_range:
  assumes "effective (nodeMapOf cs h) k = Some n"
  shows "length (nodes h) < n \<and> n < length (nodes (allocated cs h))"
proof -
  have "k \<in> id' ` set cs" using assms nodeMapOf_None[of k cs h] by auto
  then obtain c where c: "c \<in> set cs" "id' c = k" by auto
  from nodeMapOf_Some[OF c(1), of h] c(2) assms obtain i where
    "last_of cs i" "n = Suc (length (nodes h) + i)" by auto
  then show ?thesis by (simp add: last_of_def allocated_nodes)
qed

lemma nodeMapOf_nodeOf: "c \<in> set cs \<Longrightarrow> effective (nodeMapOf cs h) (id' c) = Some (nodeOf cs h c)"
  using nodeMapOf_Some[of c cs h] by (auto simp: nodeOf_def)

lemma nodeOf_index:
  "c \<in> set cs \<Longrightarrow>
     \<exists>i<length cs. nodeOf cs h c = Suc (length (nodes h) + i) \<and> id' (cs ! i) = id' c \<and> last_of cs i"
  using nodeMapOf_Some[of c cs h] by (auto simp: nodeOf_def last_of_def)

lemma nodeOf_last: "last_of cs i \<Longrightarrow> nodeOf cs h (cs ! i) = Suc (length (nodes h) + i)"
  by (simp add: nodeOf_def nodeMapOf_last)

lemma nodeOf_distinct:
  "distinct (map id' cs) \<Longrightarrow> i < length cs \<Longrightarrow> nodeOf cs h (cs ! i) = Suc (length (nodes h) + i)"
  by (simp add: nodeOf_last last_of_distinct)

lemma static_plain: "\<not> inherited cs k \<Longrightarrow> static (nodeMapOf cs h) k"
proof (cases "k \<in> id' ` set cs")
  case True
  then obtain c where "c \<in> set cs" "id' c = k" by auto
  with nodeMapOf_nodeOf[of c cs h] show ?thesis by (auto simp: static_def)
next
  case False
  assume "\<not> inherited cs k"
  with False have "''__proto__'' \<notin> id' ` set cs \<or> k \<noteq> ''parent''"
    by (auto simp: inherited_def)
  then show ?thesis
    using nodeMapOf_None[of "''__proto__''" cs h] by (auto simp: static_def proto_effective)
qed

lemma getProp_plain:
  assumes "k \<notin> id' ` set cs" "\<not> inherited cs k"
  shows "getProp (allocated cs h) (nodeMapOf cs h) k = Falsy"
proof -
  let ?m = "nodeMapOf cs h"
  from assms have k: "k \<noteq> ''__proto__''" "k \<notin> set objectPrototypeNames"
    and f: "''__proto__'' \<in> id' ` set cs \<longrightarrow> k \<noteq> ''comment'' \<and> k \<noteq> ''children'' \<and> k \<noteq> ''parent''"
    by (auto simp: inherited_def)
  from nodeMapOf_None[OF assms(1), of h] k(1) have own: "own ?m k = None"
    by (simp add: effective_def)
  show ?thesis
  proof (cases "proto ?m")
    case None
    then show ?thesis using k own by (simp add: getProp_def)
  next
    case (Some p)
    then have e: "effective ?m ''__proto__'' = Some p" by (simp add: proto_effective)
    then have "''__proto__'' \<in> id' ` set cs" using nodeMapOf_None[of "''__proto__''" cs h] by auto
    with f have f': "k \<noteq> ''comment''" "k \<noteq> ''children''" "k \<noteq> ''parent''" by simp_all
    from \<open>''__proto__'' \<in> id' ` set cs\<close> obtain c where c: "c \<in> set cs" "id' c = ''__proto__''"
      by auto
    from nodeMapOf_Some[OF c(1), of h] c(2) e obtain i where
      i: "i < length cs" "p = Suc (length (nodes h) + i)" by (auto simp: last_of_def)
    have "noRepliesRendered (nodes (allocated cs h) ! p) = 0"
      "\<not> collapsed (nodes (allocated cs h) ! p)"
      using i by (simp_all add: allocated_node fresh_node_def)
    then show ?thesis using k own Some f' by (simp add: getProp_def)
  qed
qed

lemma tgt_at_root: "at_root cs c \<Longrightarrow> tgt cs h c = NodeRef (length (nodes h))"
  by (auto simp: at_root_def top_level_def dest_def getProp_plain)

lemma tgt_found:
  "truthy (parentId c) \<Longrightarrow> last_of cs i \<Longrightarrow> id' (cs ! i) = the (parentId c)
     \<Longrightarrow> tgt cs h c = NodeRef (Suc (length (nodes h) + i))"
  using nodeMapOf_last[of cs i h] by (simp add: dest_def getProp_effective)

lemma tgt_cases:
  assumes "\<not> (truthy (parentId c) \<and> inherited cs (the (parentId c)))"
  shows "(top_level cs c \<and> tgt cs h c = NodeRef (length (nodes h))) \<or>
   (\<not> top_level cs c \<and>
    (\<exists>i. last_of cs i \<and> tgt cs h c = NodeRef (Suc (length (nodes h) + i))
        \<and> truthy (parentId c) \<and> id' (cs ! i) = the (parentId c)))"
proof (cases "top_level cs c")
  case True
  with assms have "at_root cs c" by (simp add: at_root_def)
  then show ?thesis using True by (simp add: tgt_at_root)
next
  case False
  then have t: "truthy (parentId c)" "the (parentId c) \<in> id' ` set cs"
    by (auto simp: top_level_def)
  then obtain d where "d \<in> set cs" "id' d = the (parentId c)" by auto
  with last_of_exists[of d cs] obtain i where i: "last_of cs i" "id' (cs ! i) = the (parentId c)"
    by auto
  from tgt_found[OF t(1) i, of h] i t(1) False show ?thesis by blast
qed

lemma tgt_root_iff:
  assumes "\<not> (truthy (parentId c) \<and> inherited cs (the (parentId c)))"
  shows "(tgt cs h c = NodeRef (length (nodes h))) = top_level cs c"
  using tgt_cases[OF assms, of h] by auto

lemma tgt_ge:
  assumes "\<not> (truthy (parentId c) \<and> inherited cs (the (parentId c)))"
  shows "\<exists>k\<le>length cs. tgt cs h c = NodeRef (length (nodes h) + k)"
proof -
  from tgt_cases[OF assms, of h] consider "tgt cs h c = NodeRef (length (nodes h) + 0)"
    | i where "i < length cs" "tgt cs h c = NodeRef (length (nodes h) + Suc i)"
    by (auto simp: last_of_def)
  then show ?thesis
  proof cases
    case 1
    then show ?thesis by blast
  next
    case 2
    then have "Suc i \<le> length cs" by simp
    with 2(2) show ?thesis by blast
  qed
qed

lemma allocated_children:
  "k \<le> length cs \<Longrightarrow>
     children (nodes (allocated cs h) ! (length (nodes h) + k)) = Some (length (arrays h) + k)"
proof (cases k)
  case 0
  then show ?thesis by (simp add: allocated_root)
next
  case (Suc i)
  assume "k \<le> length cs"
  with Suc have "i < length cs" by simp
  from allocated_node[OF this, of h] Suc show ?thesis by (simp add: fresh_node_def)
qed

lemma receives_tgt:
  assumes "\<not> (truthy (parentId c) \<and> inherited cs (the (parentId c)))"
  shows "receives (allocated cs h) a (tgt cs h c)
           = (length (arrays h) \<le> a \<and> tgt cs h c = NodeRef (length (nodes h) + (a - length (arrays h))))"
proof -
  from tgt_ge[OF assms, of h] obtain k where
    k: "k \<le> length cs" "tgt cs h c = NodeRef (length (nodes h) + k)" by blast
  have "(length (arrays h) + k = a) = (length (arrays h) \<le> a \<and> k = a - length (arrays h))"
    by arith
  then show ?thesis using k by (simp add: receives_def allocated_children)
qed

lemma nodeMap_total: "\<forall>c\<in>set cs. effective (nodeMapOf cs h) (id' c) = Some (nodeOf cs h c)"
  by (simp add: nodeMapOf_nodeOf)

lemma cTPO_eq:
  "commentsTreePreserveOrder cs h = Inr (length (nodes h), built cs h)
   \<and> attachAll (length (nodes h)) (nodeMapOf cs h) cs (allocated cs h) = Inr (built cs h)"
proof -
  from attachAll_returns[OF nodeMap_total] obtain h' where
    h': "attachAll (length (nodes h)) (nodeMapOf cs h) cs (allocated cs h) = Inr h'" by blast
  have "commentsTreePreserveOrder cs h = Inr (length (nodes h), h')"
    by (simp add: commentsTreePreserveOrder_def case_prod_beta newNode_simps(1) createNodes_pair h')
  then show ?thesis using h' by (simp add: built_def)
qed

lemmas built_run = cTPO_eq[THEN conjunct2]

lemma built_length:
  "length (nodes (built cs h)) = Suc (length (nodes h) + length cs)"
  "length (arrays (built cs h)) = Suc (length (arrays h) + length cs)"
  using attachAll_frame[OF nodeMap_total built_run, of cs h]
  by (simp_all add: allocated_nodes allocated_arrays)

lemma built_same_fields: "same_fields (allocated cs h) (built cs h)"
  using attachAll_frame[OF nodeMap_total built_run, of cs h] by simp

lemma built_fields:
  "comment (nodes (built cs h) ! x) = comment (nodes (allocated cs h) ! x)"
  "children (nodes (built cs h) ! x) = children (nodes (allocated cs h) ! x)"
  "noRepliesRendered (nodes (built cs h) ! x) = noRepliesRendered (nodes (allocated cs h) ! x)"
  "collapsed (nodes (built cs h) ! x) = collapsed (nodes (allocated cs h) ! x)"
  using built_same_fields[of cs h] by (simp_all add: same_fields_def)

lemma built_comment_index:
  "i < length cs \<Longrightarrow> comment (nodes (built cs h) ! Suc (length (nodes h) + i)) = Some (cs ! i)"
  by (simp add: built_fields allocated_node fresh_node_def)

lemma nodeOf_gt: "c \<in> set cs \<Longrightarrow> length (nodes h) < nodeOf cs h c"
  using nodeOf_index[of c cs h] by auto

lemma nodeOf_lt: "c \<in> set cs \<Longrightarrow> nodeOf cs h c < length (nodes (allocated cs h))"
  using nodeOf_index[of c cs h] by (auto simp: allocated_nodes)

lemma built_old_node: "x \<le> length (nodes h) \<Longrightarrow> nodes (built cs h) ! x = nodes (allocated cs h) ! x"
proof (rule attachAll_parent_other[OF nodeMap_total built_run])
  assume "x \<le> length (nodes h)"
  then show "\<forall>c\<in>set cs. nodeOf cs h c \<noteq> x" using nodeOf_gt[of _ cs h] by fastforce
qed

lemma allocated_segregated: "segregated (length (nodes h)) (length (arrays h)) (allocated cs h)"
  unfolding segregated_def
proof (intro allI impI)
  fix x assume x: "length (nodes h) \<le> x \<and> x < length (nodes (allocated cs h))"
  then have "x < Suc (length (nodes h) + length cs)" by (simp add: allocated_nodes)
  with x have "x - length (nodes h) \<le> length cs \<and> x = length (nodes h) + (x - length (nodes h))"
    by arith
  then obtain k where k: "k \<le> length cs" "x = length (nodes h) + k" by blast
  have p: "parent (nodes (allocated cs h) ! x) = None"
  proof (cases k)
    case 0
    then show ?thesis using k by (simp add: allocated_root)
  next
    case (Suc i)
    then show ?thesis using k allocated_node[of i cs h] by (simp add: fresh_node_def)
  qed
  show "(\<exists>a. children (nodes (allocated cs h) ! x) = Some a \<and> length (arrays h) \<le> a)
        \<and> (\<forall>p. parent (nodes (allocated cs h) ! x) = Some (NodeRef p)
              \<longrightarrow> length (nodes h) \<le> p \<and> p < length (nodes (allocated cs h)))"
    using p k by (simp add: allocated_children)
qed

text \<open>Whatever the batch, the call leaves every object of the given store as it was.\<close>

lemma built_extends:
  "\<exists>ns as. nodes (built cs h) = nodes h @ ns \<and> arrays (built cs h) = arrays h @ as"
proof -
  let ?N = "length (nodes h)" and ?A = "length (arrays h)"
  have r: "\<forall>k n. effective (nodeMapOf cs h) k = Some n
            \<longrightarrow> ?N \<le> n \<and> n < length (nodes (allocated cs h))"
    using nodeMapOf_range[of cs h] by fastforce
  have "?N < length (nodes (allocated cs h))" by (simp add: allocated_nodes)
  from attachAll_segregated[OF nodeMap_total built_run allocated_segregated r _ this]
  have t: "take ?N (nodes (built cs h)) = take ?N (nodes (allocated cs h))"
    "take ?A (arrays (built cs h)) = take ?A (arrays (allocated cs h))" by simp_all
  have "take ?N (nodes (allocated cs h)) = nodes h" by (simp add: allocated_nodes)
  with t(1) have "nodes (built cs h) = nodes h @ drop ?N (nodes (built cs h))"
    by (metis append_take_drop_id)
  moreover have "take ?A (arrays (allocated cs h)) = arrays h" by (simp add: allocated_arrays)
  with t(2) have "arrays (built cs h) = arrays h @ drop ?A (arrays (built cs h))"
    by (metis append_take_drop_id)
  ultimately show ?thesis by blast
qed

lemma cTPO_extends:
  "commentsTreePreserveOrder cs h = Inr (r, h')
     \<Longrightarrow> \<exists>ns as. nodes h' = nodes h @ ns \<and> arrays h' = arrays h @ as"
  using cTPO_eq[of cs h] built_extends[of cs h] by simp

lemma plain_static:
  "plain cs \<Longrightarrow> \<forall>c\<in>set cs. truthy (parentId c) \<longrightarrow> static (nodeMapOf cs h) (the (parentId c))"
  by (auto simp: plain_def intro: static_plain)

lemma built_array:
  assumes "plain cs" "a < Suc (length (arrays h) + length cs)"
  shows "arrays (built cs h) ! a =
     (if a < length (arrays h) then arrays h ! a
      else map (nodeOf cs h) (filter (\<lambda>c. tgt cs h c = NodeRef (length (nodes h) + (a - length (arrays h)))) cs))"
proof -
  have a: "a < length (arrays (allocated cs h))" using assms(2) by (simp add: allocated_arrays)
  have eq: "arrays (built cs h) ! a = arrays (allocated cs h) ! a @
      map (nodeOf cs h) (filter (\<lambda>c. receives (allocated cs h) a (tgt cs h c)) cs)"
    by (rule attachAll_arrays[OF nodeMap_total built_run a plain_static[OF assms(1)]])
  have f: "filter (\<lambda>c. receives (allocated cs h) a (tgt cs h c)) cs
         = filter (\<lambda>c. length (arrays h) \<le> a
               \<and> tgt cs h c = NodeRef (length (nodes h) + (a - length (arrays h)))) cs"
    using assms(1) by (intro filter_cong refl receives_tgt) (simp add: plain_def)
  show ?thesis
  proof (cases "a < length (arrays h)")
    case True
    then show ?thesis using eq f by (simp add: allocated_arrays nth_append)
  next
    case False
    moreover have "arrays (allocated cs h) ! a = []"
      using False assms(2) by (simp add: allocated_arrays nth_append del: replicate.simps)
    ultimately show ?thesis using eq f by simp
  qed
qed

lemma built_root_children:
  assumes "plain cs"
  shows "childrenOf (built cs h) (length (nodes h)) = map (nodeOf cs h) (filter (top_level cs) cs)"
proof -
  have "children (nodes (built cs h) ! length (nodes h)) = Some (length (arrays h))"
    by (simp add: built_fields allocated_root)
  moreover have "filter (\<lambda>c. tgt cs h c = NodeRef (length (nodes h))) cs = filter (top_level cs) cs"
    using assms by (intro filter_cong refl tgt_root_iff) (simp add: plain_def)
  ultimately show ?thesis by (simp add: childrenOf_def built_array[OF assms])
qed

lemma built_idOf: "c \<in> set cs \<Longrightarrow> idOf (built cs h) (nodeOf cs h c) = Some (id' c)"
  using nodeOf_index[of c cs h] by (auto simp: idOf_def built_fields allocated_node fresh_node_def)

lemma nodeOf_same_id:
  assumes "c \<in> set cs" "d \<in> set cs" "nodeOf cs h d = nodeOf cs h c"
  shows "id' d = id' c"
proof -
  from nodeOf_index[OF assms(1), of h] obtain i where
    i: "i < length cs" "nodeOf cs h c = Suc (length (nodes h) + i)" "id' (cs ! i) = id' c" by blast
  from nodeOf_index[OF assms(2), of h] obtain j where
    j: "j < length cs" "nodeOf cs h d = Suc (length (nodes h) + j)" "id' (cs ! j) = id' d" by blast
  from i(2) j(2) assms(3) have "i = j" by simp
  with i(3) j(3) show ?thesis by simp
qed

lemma last_of_later:
  assumes "last_of cs i" "d \<in> set (drop (Suc i) cs)"
  shows "nodeOf cs h d \<noteq> nodeOf cs h (cs ! i)"
proof
  assume e: "nodeOf cs h d = nodeOf cs h (cs ! i)"
  have i: "cs ! i \<in> set cs" using assms(1) by (simp add: last_of_def)
  have d: "d \<in> set cs" using assms(2) by (rule in_set_dropD)
  from nodeOf_same_id[OF i d e] have "id' d = id' (cs ! i)" .
  then have "id' (cs ! i) \<in> id' ` set (drop (Suc i) cs)" using assms(2) by (metis imageI)
  with assms(1) show False by (simp add: last_of_def)
qed

lemma built_split:
  "i < length cs \<Longrightarrow>
     attachAll (length (nodes h)) (nodeMapOf cs h) (take i cs @ cs ! i # drop (Suc i) cs)
        (allocated cs h) = Inr (built cs h)
     \<and> (\<forall>d\<in>set (take i cs @ cs ! i # drop (Suc i) cs).
           effective (nodeMapOf cs h) (id' d) = Some (nodeOf cs h d))"
  using built_run[where cs=cs and h=h] nodeMap_total[of cs h]
  by (simp add: id_take_nth_drop[symmetric])

text \<open>
  The node of a record that is the last to carry its id has as parent what the lookup
  gave for the record, provided that was settled after the first loop.
\<close>

lemma built_parent_last:
  assumes "last_of cs i" "\<not> (truthy (parentId (cs ! i)) \<and> inherited cs (the (parentId (cs ! i))))"
  shows "parent (nodes (built cs h) ! Suc (length (nodes h) + i)) = Some (tgt cs h (cs ! i))"
proof -
  have i: "i < length cs" using assms(1) by (simp add: last_of_def)
  have st: "truthy (parentId (cs ! i)) \<longrightarrow> static (nodeMapOf cs h) (the (parentId (cs ! i)))"
    using assms(2) static_plain by blast
  have lt: "nodeOf cs h (cs ! i) < length (nodes (allocated cs h))"
    using i by (simp add: nodeOf_lt)
  have post: "\<forall>d\<in>set (drop (Suc i) cs). nodeOf cs h d \<noteq> nodeOf cs h (cs ! i)"
    using last_of_later[OF assms(1)] by blast
  from built_split[OF i, of h]
  have "parent (nodes (built cs h) ! nodeOf cs h (cs ! i)) = Some (tgt cs h (cs ! i))"
    by (intro attachAll_parent_last[where pre="take i cs" and post="drop (Suc i) cs", OF _ _ st lt post])
       simp_all
  then show ?thesis by (simp add: nodeOf_last[OF assms(1)])
qed


section \<open>Parent chains and walks in the built tree\<close>

lemma resolves_top: "at_root cs c \<Longrightarrow> resolves cs k c"
  by (cases k) simp_all

lemma find_snoc:
  "find P (xs @ [x]) = (case find P xs of None \<Rightarrow> if P x then Some x else None | Some d \<Rightarrow> Some d)"
  by (induction xs) simp_all

lemma last_of_mem: "last_of cs j \<Longrightarrow> id' (cs ! j) = k \<Longrightarrow> k \<in> set (map id' cs)"
  by (auto simp: last_of_def)

lemma find_rev_last:
  "find P (rev cs) = Some d \<Longrightarrow>
     \<exists>j<length cs. d = cs ! j \<and> P d \<and> (\<forall>x\<in>set (drop (Suc j) cs). \<not> P x)"
proof (induction cs)
  case Nil
  then show ?case by simp
next
  case (Cons x xs)
  show ?case
  proof (cases "find P (rev xs)")
    case None
    then have no: "\<forall>y\<in>set xs. \<not> P y" by (simp add: find_None_iff)
    from Cons.prems None have "P x" "d = x" by (simp_all add: find_snoc split: if_splits)
    with no have "0 < length (x # xs) \<and> d = (x # xs) ! 0 \<and> P d
        \<and> (\<forall>y\<in>set (drop (Suc 0) (x # xs)). \<not> P y)" by simp
    then show ?thesis by blast
  next
    case (Some e)
    with Cons.prems have "d = e" by (simp add: find_snoc)
    with Some Cons.IH obtain j where "j < length xs" "d = xs ! j" "P d"
      "\<forall>y\<in>set (drop (Suc j) xs). \<not> P y" by blast
    then have "Suc j < length (x # xs) \<and> d = (x # xs) ! Suc j \<and> P d
        \<and> (\<forall>y\<in>set (drop (Suc (Suc j)) (x # xs)). \<not> P y)" by simp
    then show ?thesis by blast
  qed
qed

lemma find_parent_record:
  assumes "find (\<lambda>d. id' d = k) (rev cs) = Some d"
  shows "\<exists>j. last_of cs j \<and> d = cs ! j \<and> id' (cs ! j) = k"
proof -
  from find_rev_last[OF assms] obtain j where
    j: "j < length cs" "d = cs ! j" "id' d = k" "\<forall>x\<in>set (drop (Suc j) cs). id' x \<noteq> k" by blast
  then have "last_of cs j" by (auto simp: last_of_def)
  with j show ?thesis by blast
qed

lemma resolves_plain:
  assumes "resolves cs k c"
  shows "\<not> (truthy (parentId c) \<and> inherited cs (the (parentId c)))"
proof (cases "at_root cs c")
  case True
  then show ?thesis by (simp add: at_root_def)
next
  case False
  with assms obtain d where "find (\<lambda>d. id' d = the (parentId c)) (rev cs) = Some d"
    by (cases k) (auto split: option.splits)
  from find_parent_record[OF this] have "the (parentId c) \<in> set (map id' cs)"
    using last_of_mem by blast
  then show ?thesis by (simp add: inherited_def)
qed

lemma resolves_step:
  assumes "resolves cs (Suc k) c" "\<not> at_root cs c"
  shows "\<exists>j. last_of cs j \<and> id' (cs ! j) = the (parentId c) \<and> truthy (parentId c)
           \<and> resolves cs k (cs ! j)
           \<and> find (\<lambda>d. id' d = the (parentId c)) (rev cs) = Some (cs ! j)"
proof -
  from assms obtain d where d: "find (\<lambda>d. id' d = the (parentId c)) (rev cs) = Some d"
    "resolves cs k d" by (auto split: option.splits)
  from find_parent_record[OF d(1)] obtain j where
    j: "last_of cs j" "d = cs ! j" "id' (cs ! j) = the (parentId c)" by blast
  then have "the (parentId c) \<in> set (map id' cs)" using last_of_mem by blast
  then have "\<not> inherited cs (the (parentId c))" by (simp add: inherited_def)
  with assms(2) have "truthy (parentId c)" by (auto simp: at_root_def top_level_def)
  with d j show ?thesis by blast
qed

lemma resolves_Suc: "resolves cs k c \<Longrightarrow> resolves cs (Suc k) c"
proof (induction k arbitrary: c)
  case 0
  then show ?case by simp
next
  case (Suc k)
  show ?case
  proof (cases "at_root cs c")
    case True
    then show ?thesis by simp
  next
    case False
    with Suc.prems obtain d where d: "find (\<lambda>d. id' d = the (parentId c)) (rev cs) = Some d" "resolves cs k d"
      by (auto split: option.splits)
    from Suc.IH[OF d(2)] d(1) show ?thesis by simp
  qed
qed

lemma resolves_mono: "resolves cs k c \<Longrightarrow> k \<le> k' \<Longrightarrow> resolves cs k' c"
proof (induction k')
  case 0
  then show ?case by simp
next
  case (Suc k')
  show ?case
  proof (cases "k = Suc k'")
    case True
    then show ?thesis using Suc.prems(1) by simp
  next
    case False
    then have "k \<le> k'" using Suc.prems(2) by simp
    from Suc.IH[OF Suc.prems(1) this] show ?thesis by (rule resolves_Suc)
  qed
qed

lemma depth_is_parent:
  assumes "depth_is cs (Suc k) c"
  shows "\<exists>d. depth_is cs k d"
proof -
  from assms have r: "resolves cs (Suc k) c" and n: "\<forall>j<Suc k. \<not> resolves cs j c"
    by (simp_all add: depth_is_def)
  from n have "\<not> resolves cs 0 c" by blast
  then have nt: "\<not> at_root cs c" by simp
  with r obtain d where d: "find (\<lambda>d. id' d = the (parentId c)) (rev cs) = Some d" "resolves cs k d"
    by (auto split: option.splits)
  have din: "d \<in> set cs" using find_parent_record[OF d(1)] by (auto simp: last_of_def)
  have "\<forall>j<k. \<not> resolves cs j d"
  proof (intro allI impI notI)
    fix j assume "j < k" "resolves cs j d"
    then have "resolves cs (Suc j) c" "Suc j < Suc k" using d(1) by simp_all
    with n show False by blast
  qed
  with d(2) din show ?thesis by (auto simp: depth_is_def)
qed

lemma depth_is_below: "depth_is cs k c \<Longrightarrow> j \<le> k \<Longrightarrow> \<exists>d. depth_is cs j d"
proof (induction k arbitrary: c)
  case 0
  then show ?case by auto
next
  case (Suc k)
  show ?case
  proof (cases "j = Suc k")
    case True
    then show ?thesis using Suc.prems(1) by blast
  next
    case False
    then have "j \<le> k" using Suc.prems(2) by simp
    from depth_is_parent[OF Suc.prems(1)] obtain d where "depth_is cs k d" by blast
    from Suc.IH[OF this \<open>j \<le> k\<close>] show ?thesis .
  qed
qed

lemma depth_is_Least: "depth_is cs k c \<Longrightarrow> (LEAST j. resolves cs j c) = k"
  unfolding depth_is_def by (intro Least_equality) (auto simp: not_less[symmetric])

lemma depth_is_bound:
  assumes "depth_is cs k c"
  shows "k < length cs"
proof -
  let ?f = "\<lambda>d. LEAST j. resolves cs j d"
  have "{0..k} \<subseteq> ?f ` set cs"
  proof
    fix j assume "j \<in> {0..k}"
    then have "j \<le> k" by simp
    from depth_is_below[OF assms this] obtain d where d: "depth_is cs j d" by blast
    then have "d \<in> set cs" "?f d = j" by (simp_all add: depth_is_Least) (simp add: depth_is_def)
    then show "j \<in> ?f ` set cs" by blast
  qed
  then have "card {0..k} \<le> card (?f ` set cs)" by (intro card_mono) simp_all
  also have "\<dots> \<le> card (set cs)" by (rule card_image_le) simp
  also have "\<dots> \<le> length cs" by (rule card_length)
  finally show ?thesis by simp
qed

lemma resolves_depth:
  assumes "c \<in> set cs" "resolves cs k c"
  shows "\<exists>j\<le>k. depth_is cs j c"
proof -
  let ?j = "LEAST j. resolves cs j c"
  have "resolves cs ?j c" using assms(2) by (rule LeastI)
  moreover have "?j \<le> k" using assms(2) by (rule Least_le)
  moreover have "\<forall>i<?j. \<not> resolves cs i c" using not_less_Least by blast
  ultimately show ?thesis using assms(1) by (auto simp: depth_is_def)
qed

lemma resolves_bound:
  assumes "c \<in> set cs" "resolves cs k c"
  shows "resolves cs (length cs - 1) c"
proof -
  from resolves_depth[OF assms] obtain j where j: "depth_is cs j c" by blast
  from depth_is_bound[OF j] have "j \<le> length cs - 1" by simp
  moreover have "resolves cs j c" using j by (simp add: depth_is_def)
  ultimately show ?thesis by (rule resolves_mono[rotated])
qed

lemma climbs_root: "climbs h r k r"
  by (cases k) simp_all

lemma climbs_Suc: "climbs h r k n \<Longrightarrow> climbs h r (Suc k) n"
proof (induction k arbitrary: n)
  case 0
  then show ?case by simp
next
  case (Suc k)
  show ?case
  proof (cases "n = r")
    case True
    then show ?thesis by simp
  next
    case False
    with Suc.prems obtain p where p: "parent (nodes h ! n) = Some (NodeRef p)" "climbs h r k p"
      by (auto split: option.splits ref.splits)
    from Suc.IH[OF p(2)] p(1) show ?thesis by simp
  qed
qed

lemma climbs_mono: "climbs h r k n \<Longrightarrow> k \<le> k' \<Longrightarrow> climbs h r k' n"
proof (induction k')
  case 0
  then show ?case by simp
next
  case (Suc k')
  show ?case
  proof (cases "k = Suc k'")
    case True
    then show ?thesis using Suc.prems(1) by simp
  next
    case False
    then have "k \<le> k'" using Suc.prems(2) by simp
    from Suc.IH[OF Suc.prems(1) this] show ?thesis by (rule climbs_Suc)
  qed
qed

lemma built_climbs:
  "last_of cs i \<Longrightarrow> resolves cs k (cs ! i)
     \<Longrightarrow> climbs (built cs h) (length (nodes h)) (Suc k) (Suc (length (nodes h) + i))"
proof (induction k arbitrary: i)
  case 0
  then have a: "at_root cs (cs ! i)" by simp
  have "parent (nodes (built cs h) ! Suc (length (nodes h) + i)) = Some (NodeRef (length (nodes h)))"
    using built_parent_last[OF "0.prems"(1) resolves_plain[OF "0.prems"(2)], of h]
    by (simp add: tgt_at_root[OF a])
  then show ?case by simp
next
  case (Suc k)
  have par: "parent (nodes (built cs h) ! Suc (length (nodes h) + i)) = Some (tgt cs h (cs ! i))"
    by (rule built_parent_last[OF Suc.prems(1) resolves_plain[OF Suc.prems(2)]])
  show ?case
  proof (cases "at_root cs (cs ! i)")
    case True
    then show ?thesis using par by (simp add: tgt_at_root climbs_root)
  next
    case False
    from resolves_step[OF Suc.prems(2) False] obtain j where
      j: "last_of cs j" "id' (cs ! j) = the (parentId (cs ! i))" "truthy (parentId (cs ! i))"
         "resolves cs k (cs ! j)" by blast
    from tgt_found[OF j(3,1,2), of h] par Suc.IH[OF j(1,4)] show ?thesis by simp
  qed
qed

lemma scenario_resolves: "\<forall>c\<in>set scenario. resolves scenario (length scenario) c"
  by (simp add: scenario_def at_root_def top_level_def truthy_def)

lemma listed_simps:
  "listed h {#} = {#}"
  "listed h (add_mset x M) = mset (childrenOf h x) + listed h M"
  "listed h (M + M') = listed h M + listed h M'"
  by (simp_all add: listed_def)

lemma treeNodes_0_concat: "concat (map (treeNodes 0 h) xs) = []"
  by (induction xs) simp_all

lemma treeNodes_level:
  "mset (treeNodes (Suc k) h x) = add_mset x (listed h (mset (treeNodes k h x)))"
proof (induction k arbitrary: x)
  case 0
  show ?case by (simp add: treeNodes_0_concat listed_simps)
next
  case (Suc k)
  have aux: "mset (concat (map (treeNodes (Suc k) h) l))
               = mset l + listed h (mset (concat (map (treeNodes k h) l)))" for l
  proof (induction l)
    case Nil
    show ?case by (simp add: listed_simps)
  next
    case (Cons c l)
    have "mset (concat (map (treeNodes (Suc k) h) (c # l)))
            = mset (treeNodes (Suc k) h c) + mset (concat (map (treeNodes (Suc k) h) l))"
      by simp
    also have "\<dots> = add_mset c (listed h (mset (treeNodes k h c)))
                    + (mset l + listed h (mset (concat (map (treeNodes k h) l))))"
      by (simp only: Suc.IH Cons.IH)
    also have "\<dots> = mset (c # l) + listed h (mset (concat (map (treeNodes k h) (c # l))))"
      by (simp add: listed_simps)
    finally show ?case .
  qed
  have "mset (treeNodes (Suc (Suc k)) h x)
          = add_mset x (mset (concat (map (treeNodes (Suc k) h) (childrenOf h x))))"
    by simp
  also have "\<dots> = add_mset x (mset (childrenOf h x)
                      + listed h (mset (concat (map (treeNodes k h) (childrenOf h x)))))"
    by (simp only: aux)
  also have "\<dots> = add_mset x (listed h (mset (treeNodes (Suc k) h x)))"
    by (simp add: listed_simps)
  finally show ?case .
qed

lemma count_listed_parent:
  assumes "\<forall>z\<in>#M. count (mset (childrenOf h z)) y = (if z = p then 1 else 0)"
  shows "count (listed h M) y = count M p"
  using assms by (induction M) (simp_all add: listed_simps)

lemma count_listed_none:
  assumes "\<forall>z\<in>#M. y \<notin> set (childrenOf h z)"
  shows "count (listed h M) y = 0"
  using assms by (induction M) (simp_all add: listed_simps count_eq_zero_iff)

lemma built_children:
  assumes "plain cs" "k \<le> length cs"
  shows "childrenOf (built cs h) (length (nodes h) + k)
           = map (nodeOf cs h) (filter (\<lambda>c. tgt cs h c = NodeRef (length (nodes h) + k)) cs)"
proof -
  have "children (nodes (built cs h) ! (length (nodes h) + k)) = Some (length (arrays h) + k)"
    by (simp add: built_fields allocated_children[OF assms(2)])
  moreover have "length (arrays h) + k < Suc (length (arrays h) + length cs)" using assms by simp
  ultimately show ?thesis by (simp add: childrenOf_def built_array[OF assms(1)])
qed

lemma map_nodeOf:
  assumes "distinct (map id' cs)"
  shows "map (nodeOf cs h) cs = map (\<lambda>i. Suc (length (nodes h) + i)) [0..<length cs]"
  by (rule nth_equalityI) (simp_all add: nodeOf_distinct[OF assms] del: upt_Suc)

lemma count_map_filter:
  "distinct (map f xs) \<Longrightarrow> c \<in> set xs \<Longrightarrow>
     count (mset (map f (filter P xs))) (f c) = (if P c then 1 else 0)"
proof (induction xs)
  case Nil
  then show ?case by simp
next
  case (Cons x xs)
  show ?case
  proof (cases "c \<in> set xs")
    case True
    then have "f x \<noteq> f c" using Cons.prems(1) by auto
    then show ?thesis using Cons.IH True Cons.prems(1) by simp
  next
    case False
    then have cx: "c = x" using Cons.prems(2) by simp
    have "f x \<notin> f ` set (filter P xs)" using Cons.prems(1) by auto
    then have "count (mset (map f (filter P xs))) (f x) = 0"
      by (simp add: count_eq_zero_iff)
    then show ?thesis using cx by simp
  qed
qed

lemma built_children_count:
  assumes "plain cs" "distinct (map id' cs)" "c \<in> set cs" "k \<le> length cs"
  shows "count (mset (childrenOf (built cs h) (length (nodes h) + k))) (nodeOf cs h c)
           = (if NodeRef (length (nodes h) + k) = tgt cs h c then 1 else 0)"
proof -
  have d: "distinct (map (nodeOf cs h) cs)"
    unfolding map_nodeOf[OF assms(2)] by (simp add: distinct_map inj_on_def)
  show ?thesis
    unfolding built_children[OF assms(1,4)] count_map_filter[OF d assms(3)] by auto
qed

lemma built_children_set:
  assumes "plain cs" "k \<le> length cs"
  shows "set (childrenOf (built cs h) (length (nodes h) + k))
           \<subseteq> {Suc (length (nodes h))..length (nodes h) + length cs}"
proof
  fix y assume "y \<in> set (childrenOf (built cs h) (length (nodes h) + k))"
  then obtain c where "c \<in> set cs" "y = nodeOf cs h c"
    unfolding built_children[OF assms] by auto
  with nodeOf_index[of c cs h] show "y \<in> {Suc (length (nodes h))..length (nodes h) + length cs}"
    by auto
qed

lemma built_walk_set:
  assumes pl: "plain cs"
  shows "k' \<le> length cs \<Longrightarrow>
     set (treeNodes k (built cs h) (length (nodes h) + k'))
       \<subseteq> {length (nodes h)..length (nodes h) + length cs}"
proof (induction k arbitrary: k')
  case 0
  then show ?case by simp
next
  case (Suc k)
  have "set (treeNodes k (built cs h) y) \<subseteq> {length (nodes h)..length (nodes h) + length cs}"
    if "y \<in> set (childrenOf (built cs h) (length (nodes h) + k'))" for y
  proof -
    from that built_children_set[OF pl Suc.prems, of h]
    have "Suc (length (nodes h)) \<le> y" "y \<le> length (nodes h) + length cs" by auto
    then have "y = length (nodes h) + (y - length (nodes h))" "y - length (nodes h) \<le> length cs"
      by simp_all
    with Suc.IH[of "y - length (nodes h)"] show ?thesis by simp
  qed
  then show ?case using Suc.prems by auto
qed

lemma built_walk_range:
  assumes pl: "plain cs"
  shows "z \<in># mset (treeNodes k (built cs h) (length (nodes h)))
     \<Longrightarrow> \<exists>k'\<le>length cs. z = length (nodes h) + k'"
proof -
  assume "z \<in># mset (treeNodes k (built cs h) (length (nodes h)))"
  then have "z \<in> {length (nodes h)..length (nodes h) + length cs}"
    using built_walk_set[OF pl, of 0 k h] by auto
  then have "z - length (nodes h) \<le> length cs \<and> z = length (nodes h) + (z - length (nodes h))"
    by auto
  then show ?thesis by blast
qed

lemma walk_count_node:
  assumes "plain cs" "distinct (map id' cs)" "c \<in> set cs" "tgt cs h c = NodeRef p"
  shows "count (mset (treeNodes (Suc k) (built cs h) (length (nodes h)))) (nodeOf cs h c)
           = count (mset (treeNodes k (built cs h) (length (nodes h)))) p"
proof -
  let ?W = "mset (treeNodes k (built cs h) (length (nodes h)))"
  have ne: "nodeOf cs h c \<noteq> length (nodes h)" using nodeOf_gt[OF assms(3), of h] by simp
  have "\<forall>z\<in>#?W. count (mset (childrenOf (built cs h) z)) (nodeOf cs h c)
                    = (if z = p then 1 else 0)"
  proof
    fix z assume "z \<in># ?W"
    from built_walk_range[OF assms(1) this] obtain k' where
      k': "k' \<le> length cs" "z = length (nodes h) + k'" by blast
    show "count (mset (childrenOf (built cs h) z)) (nodeOf cs h c) = (if z = p then 1 else 0)"
      unfolding k'(2) built_children_count[OF assms(1,2,3) k'(1)] assms(4) by simp
  qed
  then have "count (listed (built cs h) ?W) (nodeOf cs h c) = count ?W p"
    by (rule count_listed_parent)
  then show ?thesis using ne by (simp only: treeNodes_level) simp
qed

lemma walk_count_root:
  assumes pl: "plain cs"
  shows "count (mset (treeNodes (Suc k) (built cs h) (length (nodes h)))) (length (nodes h)) = 1"
proof -
  let ?W = "mset (treeNodes k (built cs h) (length (nodes h)))"
  have "\<forall>z\<in>#?W. length (nodes h) \<notin> set (childrenOf (built cs h) z)"
  proof
    fix z assume "z \<in># ?W"
    from built_walk_range[OF pl this] obtain k' where
      k': "k' \<le> length cs" "z = length (nodes h) + k'" by blast
    show "length (nodes h) \<notin> set (childrenOf (built cs h) z)"
      using built_children_set[OF pl k'(1), of h] unfolding k'(2) by auto
  qed
  then have "count (listed (built cs h) ?W) (length (nodes h)) = 0"
    by (rule count_listed_none)
  then show ?thesis by (simp only: treeNodes_level) simp
qed

lemma walk_count_resolved:
  assumes "plain cs" "distinct (map id' cs)"
  shows "c \<in> set cs \<Longrightarrow> resolves cs j c \<Longrightarrow> j + 2 \<le> k
           \<Longrightarrow> count (mset (treeNodes k (built cs h) (length (nodes h)))) (nodeOf cs h c) = 1"
proof (induction j arbitrary: c k)
  case 0
  then obtain k' where k: "k = Suc (Suc k')" by (cases k; cases "k - 1") auto
  have "tgt cs h c = NodeRef (length (nodes h))" using "0.prems"(2) by (simp add: tgt_at_root)
  from walk_count_node[OF assms "0.prems"(1) this] show ?case
    unfolding k by (simp only: walk_count_root[OF assms(1)])
next
  case (Suc j)
  from Suc.prems(3) obtain k' where k: "k = Suc k'" "j + 2 \<le> k'" by (cases k) auto
  show ?case
  proof (cases "at_root cs c")
    case True
    from k obtain k'' where k'': "k' = Suc k''" by (cases k') auto
    have "tgt cs h c = NodeRef (length (nodes h))" using True by (simp add: tgt_at_root)
    from walk_count_node[OF assms Suc.prems(1) this] show ?thesis
      unfolding k(1) k'' by (simp only: walk_count_root[OF assms(1)])
  next
    case False
    from resolves_step[OF Suc.prems(2) False] obtain i where
      i: "last_of cs i" "id' (cs ! i) = the (parentId c)" "truthy (parentId c)"
         "resolves cs j (cs ! i)" by blast
    have din: "cs ! i \<in> set cs" using i(1) by (simp add: last_of_def)
    have t: "tgt cs h c = NodeRef (nodeOf cs h (cs ! i))"
      using tgt_found[OF i(3,1,2), of h] by (simp add: nodeOf_last[OF i(1)])
    from walk_count_node[OF assms Suc.prems(1) t] Suc.IH[OF din i(4) k(2)] show ?thesis
      unfolding k(1) by simp
  qed
qed

lemma resolves_all_plain: "\<forall>c\<in>set cs. resolves cs k c \<Longrightarrow> plain cs"
  unfolding plain_def using resolves_plain by blast

lemma built_walk:
  assumes "distinct (map id' cs)" and "\<forall>c\<in>set cs. resolves cs (length cs) c"
    and "length cs < k"
  shows "mset (treeNodes k (built cs h) (length (nodes h)))
           = mset [length (nodes h)..<Suc (length (nodes h) + length cs)]"
proof (rule multiset_eqI)
  fix y
  let ?N = "length (nodes h)"
  let ?W = "mset (treeNodes k (built cs h) ?N)"
  from assms(3) obtain k' where k: "k = Suc k'" by (cases k) auto
  have pl: "plain cs" using assms(2) by (rule resolves_all_plain)
  consider "y = ?N" | i where "i < length cs" "y = Suc (?N + i)" | "y < ?N \<or> ?N + length cs < y"
    by (cases "y = ?N"; cases "y < ?N \<or> ?N + length cs < y") (auto intro: that(2)[of "y - Suc ?N"])
  then show "count ?W y = count (mset [?N..<Suc (?N + length cs)]) y"
  proof cases
    case 1
    then show ?thesis unfolding k by (simp add: walk_count_root[OF pl] del: treeNodes.simps upt_Suc)
  next
    case 2
    have cin: "cs ! i \<in> set cs" using 2(1) by simp
    have r: "resolves cs (length cs - 1) (cs ! i)"
      using resolves_bound[OF cin] assms(2) cin by blast
    have "length cs - 1 + 2 \<le> k" using assms(3) 2(1) by simp
    from walk_count_resolved[OF pl assms(1) cin r this, of h]
    have "count ?W y = 1" using 2 by (simp only: nodeOf_distinct[OF assms(1) 2(1)])
    then show ?thesis using 2 by (simp del: upt_Suc)
  next
    case 3
    then have "y \<notin> set (treeNodes k (built cs h) ?N)"
      using built_walk_set[OF pl, of 0 k h] by auto
    then have "count ?W y = 0" by (simp add: count_eq_zero_iff)
    then show ?thesis using 3 by (auto simp del: upt_Suc)
  qed
qed

section \<open>The reply-batch case\<close>

lemma refs_ok_child:
  assumes "refs_ok h" "x < length (nodes h)" "c \<in> set (childrenOf h x)"
  shows "c < length (nodes h)"
proof (cases "children (nodes h ! x)")
  case None
  then show ?thesis using assms(3) by (simp add: childrenOf_def)
next
  case (Some ar)
  from assms(1,2) have "case children (nodes h ! x) of None \<Rightarrow> True
      | Some ar \<Rightarrow> ar < length (arrays h) \<and> (\<forall>c\<in>set (arrays h ! ar). c < length (nodes h))"
    unfolding refs_ok_def by blast
  then show ?thesis using Some assms(3) by (simp add: childrenOf_def)
qed

lemma childrenOf_extend:
  "x < length (nodes h) \<Longrightarrow> childrenOf (h\<lparr>nodes := nodes h @ ns\<rparr>) x = childrenOf h x"
  by (simp add: childrenOf_def nth_append split: option.splits)

lemma treeNodes_extend:
  assumes "refs_ok h"
  shows "x < length (nodes h) \<Longrightarrow> treeNodes j (h\<lparr>nodes := nodes h @ ns\<rparr>) x = treeNodes j h x"
proof (induction j arbitrary: x)
  case 0
  show ?case by simp
next
  case (Suc j)
  have "map (treeNodes j (h\<lparr>nodes := nodes h @ ns\<rparr>)) (childrenOf h x)
          = map (treeNodes j h) (childrenOf h x)"
    by (rule map_cong[OF refl]) (rule Suc.IH, rule refs_ok_child[OF assms Suc.prems])
  then show ?case by (simp only: treeNodes.simps childrenOf_extend[OF Suc.prems])
qed

lemma treeNodes_copy:
  assumes "refs_ok h" "r < length (nodes h)"
  shows "treeNodes j (h\<lparr>nodes := nodes h @ [nodes h ! r]\<rparr>) (length (nodes h))
           = (case treeNodes j h r of [] \<Rightarrow> [] | x # xs \<Rightarrow> length (nodes h) # xs)"
proof (cases j)
  case 0
  then show ?thesis by simp
next
  case (Suc j')
  let ?h' = "h\<lparr>nodes := nodes h @ [nodes h ! r]\<rparr>"
  have ch: "childrenOf ?h' (length (nodes h)) = childrenOf h r"
    by (simp add: childrenOf_def split: option.splits)
  have "map (treeNodes j' ?h') (childrenOf h r) = map (treeNodes j' h) (childrenOf h r)"
    by (rule map_cong[OF refl])
       (rule treeNodes_extend[OF assms(1)], rule refs_ok_child[OF assms])
  then have "treeNodes (Suc j') ?h' (length (nodes h))
               = length (nodes h) # concat (map (treeNodes j' h) (childrenOf h r))"
    by (simp only: treeNodes.simps ch)
  then show ?thesis using Suc by simp
qed

lemma newComments_all_found:
  "\<forall>c\<in>set cs. \<exists>n. searchTree k h r (id' c) = Inr (Some n) \<Longrightarrow> newComments k h r cs = Inr []"
  by (induction cs) auto

lemma commentsTree_nothing: "commentsTree k [] (Some r) h = Inr (r, h)"
  by (simp add: commentsTree_def)

section \<open>What the reducer does to the store\<close>

subsection \<open>Stores that only grow\<close>

lemma nth_update_any: "(xs[i := v]) ! j = (if j = i \<and> i < length xs then v else xs ! j)"
proof (cases "i < length xs")
  case True
  then show ?thesis by (auto simp: nth_list_update)
next
  case False
  then show ?thesis by (simp add: list_update_beyond)
qed

lemma kept_refl: "kept s N A g g"
  by (simp add: kept_def same_but_children_def)

lemma kept_trans:
  assumes "kept s N A h g" "kept s N A g g'"
  shows "kept s N A h g'"
  unfolding kept_def
proof (intro conjI allI impI)
  show "length (nodes h) \<le> length (nodes g')" "length (arrays h) \<le> length (arrays g')"
    using assms by (simp_all add: kept_def)
next
  fix x assume x: "x < N"
  from assms(1) x have 1: "same_but_children (nodes h ! x) (nodes g ! x)"
    "children (nodes g ! x) = children (nodes h ! x)
     \<or> ((s \<longrightarrow> children (nodes h ! x) = None) \<and> (\<exists>a\<ge>A. children (nodes g ! x) = Some a))"
    unfolding kept_def by blast+
  from assms(2) x have 2: "same_but_children (nodes g ! x) (nodes g' ! x)"
    "children (nodes g' ! x) = children (nodes g ! x)
     \<or> ((s \<longrightarrow> children (nodes g ! x) = None) \<and> (\<exists>a\<ge>A. children (nodes g' ! x) = Some a))"
    unfolding kept_def by blast+
  show "same_but_children (nodes h ! x) (nodes g' ! x)"
    using 1(1) 2(1) by (simp add: same_but_children_def)
  show "children (nodes g' ! x) = children (nodes h ! x)
        \<or> ((s \<longrightarrow> children (nodes h ! x) = None) \<and> (\<exists>a\<ge>A. children (nodes g' ! x) = Some a))"
    using 1(2) 2(2) by auto
next
  fix a assume a: "a < A"
  from assms(1) a obtain ys where ys: "arrays g ! a = arrays h ! a @ ys" "\<forall>y\<in>set ys. N \<le> y"
    unfolding kept_def by blast
  from assms(2) a obtain zs where zs: "arrays g' ! a = arrays g ! a @ zs" "\<forall>y\<in>set zs. N \<le> y"
    unfolding kept_def by blast
  have "arrays g' ! a = arrays h ! a @ (ys @ zs) \<and> (\<forall>y\<in>set (ys @ zs). N \<le> y)"
    using ys zs by auto
  then show "\<exists>ys. arrays g' ! a = arrays h ! a @ ys \<and> (\<forall>y\<in>set ys. N \<le> y)" by blast
qed

lemma kept_newNode:
  "N \<le> length (nodes g) \<Longrightarrow> A \<le> length (arrays g) \<Longrightarrow> kept s N A g (snd (newNode c g))"
  by (simp add: kept_def newNode_def nth_append same_but_children_def)

lemma kept_copyNode: "N \<le> length (nodes g) \<Longrightarrow> kept s N A g (snd (copyNode n g))"
  by (simp add: kept_def copyNode_def nth_append same_but_children_def)

lemma kept_set_parent: "N \<le> n \<Longrightarrow> kept s N A g (set_parent n r g)"
  by (simp add: kept_def set_parent_def nth_update_any same_but_children_def)

lemma kept_set_children:
  "A \<le> length (arrays g) \<Longrightarrow> s \<longrightarrow> children (nodes g ! p) = None
     \<Longrightarrow> kept s N A g (set_children p xs g)"
  by (simp add: kept_def set_children_def nth_update_any nth_append same_but_children_def)

lemma kept_push_child: "N \<le> n \<Longrightarrow> kept s N A g (push_child p n g)"
proof (cases "children (nodes g ! p)")
  case None
  then show ?thesis by (simp add: push_child_def kept_refl)
next
  case (Some ar)
  assume n: "N \<le> n"
  have "\<exists>ys. (arrays g)[ar := arrays g ! ar @ [n]] ! a = arrays g ! a @ ys \<and> (\<forall>y\<in>set ys. N \<le> y)"
    for a
  proof (cases "a = ar \<and> ar < length (arrays g)")
    case True
    then have "(arrays g)[ar := arrays g ! ar @ [n]] ! a = arrays g ! a @ [n]
        \<and> (\<forall>y\<in>set [n]. N \<le> y)" using n by simp
    then show ?thesis by blast
  next
    case False
    then have "(arrays g)[ar := arrays g ! ar @ [n]] ! a = arrays g ! a @ []
        \<and> (\<forall>y\<in>set []. N \<le> y)" by (simp add: nth_update_any)
    then show ?thesis by blast
  qed
  then show ?thesis using Some by (simp add: kept_def push_child_def same_but_children_def)
qed

lemma kept_append_child:
  assumes "N \<le> n" "A \<le> length (arrays g)"
  shows "kept s N A g (append_child p n g)"
proof (cases "children (nodes g ! p)")
  case None
  then have "kept s N A g (set_children p [n] g)" using assms(2) by (simp add: kept_set_children)
  from kept_trans[OF this kept_set_parent[OF assms(1)]] None show ?thesis
    by (simp add: append_child_def)
next
  case (Some ar)
  have "kept s N A g (push_child p n g)" by (rule kept_push_child[OF assms(1)])
  from kept_trans[OF this kept_set_parent[OF assms(1)]] Some show ?thesis
    by (simp add: append_child_def)
qed

lemma kept_extension:
  "nodes g' = nodes g @ ns \<Longrightarrow> arrays g' = arrays g @ as \<Longrightarrow> N \<le> length (nodes g)
     \<Longrightarrow> A \<le> length (arrays g) \<Longrightarrow> kept s N A g g'"
  by (simp add: kept_def nth_append same_but_children_def)

lemma kept_weaken: "kept True N A g g' \<Longrightarrow> kept s N A g g'"
  unfolding kept_def by blast

lemma appended_grown: "appended h h' \<Longrightarrow> grown h h'"
  unfolding appended_def grown_def by (rule kept_weaken)

lemma appended_refl: "appended h h"
  by (simp add: appended_def kept_refl)

lemma appended_lengths:
  "appended h g \<Longrightarrow> length (nodes h) \<le> length (nodes g) \<and> length (arrays h) \<le> length (arrays g)"
  by (simp add: appended_def kept_def)

lemma appended_step:
  "appended h g \<Longrightarrow> kept True (length (nodes h)) (length (arrays h)) g g' \<Longrightarrow> appended h g'"
  unfolding appended_def by (rule kept_trans)

lemma appended_newNode: "appended h g \<Longrightarrow> appended h (snd (newNode c g))"
  using appended_lengths[of h g] by (auto intro: appended_step kept_newNode)

lemma appended_copyNode: "appended h g \<Longrightarrow> appended h (snd (copyNode n g))"
  using appended_lengths[of h g] by (auto intro: appended_step kept_copyNode)

lemma appended_append_child:
  "appended h g \<Longrightarrow> length (nodes h) \<le> n \<Longrightarrow> appended h (append_child p n g)"
  using appended_lengths[of h g] by (auto intro: appended_step kept_append_child)

lemma grown_refl: "grown h h"
  by (simp add: grown_def kept_refl)

lemma grown_lengths:
  "grown h g \<Longrightarrow> length (nodes h) \<le> length (nodes g) \<and> length (arrays h) \<le> length (arrays g)"
  by (simp add: grown_def kept_def)

lemma grown_step:
  "grown h g \<Longrightarrow> kept False (length (nodes h)) (length (arrays h)) g g' \<Longrightarrow> grown h g'"
  unfolding grown_def by (rule kept_trans)

lemma grown_copyNode: "grown h g \<Longrightarrow> grown h (snd (copyNode n g))"
  using grown_lengths[of h g] by (auto intro: grown_step kept_copyNode)

lemma grown_extension:
  "nodes h' = nodes h @ ns \<Longrightarrow> arrays h' = arrays h @ as \<Longrightarrow> grown h h'"
  unfolding grown_def by (rule kept_extension) simp_all

subsection \<open>The tree module on a store\<close>

lemma allocateNodes_appended:
  assumes "allocateNodes cs m g = (m', g')" "appended h g"
    "\<forall>k n. m k = Some n \<longrightarrow> length (nodes h) \<le> n"
  shows "appended h g' \<and> (\<forall>k n. m' k = Some n \<longrightarrow> length (nodes h) \<le> n)"
  using assms
proof (induction cs arbitrary: m g)
  case Nil
  then show ?case by simp
next
  case (Cons c cs)
  let ?g1 = "snd (newNode (Some c) g)"
  have run: "allocateNodes cs (m(id' c \<mapsto> length (nodes g))) ?g1 = (m', g')"
    using Cons.prems(1) by (simp add: newNode_def)
  have g1: "appended h ?g1" by (rule appended_newNode[OF Cons.prems(2)])
  have "length (nodes h) \<le> length (nodes g)" using appended_lengths[OF Cons.prems(2)] by simp
  then have m1: "\<forall>k n. (m(id' c \<mapsto> length (nodes g))) k = Some n \<longrightarrow> length (nodes h) \<le> n"
    using Cons.prems(3) by auto
  from Cons.IH[OF run g1 m1] show ?case .
qed

lemma merge_attach_step:
  "merge_attach k mg root m c g = Inr g' \<Longrightarrow> \<exists>p n. m (id' c) = Some n \<and> g' = append_child p n g"
  by (auto simp: merge_attach_def split: option.splits if_splits sum.splits)

lemma merge_attachAll_appended:
  assumes "\<forall>k n. m k = Some n \<longrightarrow> length (nodes h) \<le> n"
  shows "appended h g \<Longrightarrow> merge_attachAll k mg root m cs g = Inr g' \<Longrightarrow> appended h g'"
proof (induction cs arbitrary: g)
  case Nil
  then show ?case by simp
next
  case (Cons c cs)
  from Cons.prems(2) obtain g1 where g1: "merge_attach k mg root m c g = Inr g1"
    "merge_attachAll k mg root m cs g1 = Inr g'" by (auto split: sum.splits)
  from merge_attach_step[OF g1(1)] obtain p n where
    pn: "m (id' c) = Some n" "g1 = append_child p n g" by blast
  have "length (nodes h) \<le> n" using assms pn(1) by blast
  from appended_append_child[OF Cons.prems(1) this] pn(2) have "appended h g1" by simp
  from Cons.IH[OF this g1(2)] show ?case .
qed

text \<open>
  A merge into an existing tree changes the objects of the store by insertions only.
\<close>

lemma commentsTree_appended:
  assumes "commentsTree k cs (Some r) h = Inr (t, h')"
  shows "appended h h'"
proof -
  obtain m h1 where a: "allocateNodes cs Map.empty h = (m, h1)" by (cases "allocateNodes cs Map.empty h")
  from allocateNodes_appended[OF a appended_refl] have g1: "appended h h1"
    and m: "\<forall>k n. m k = Some n \<longrightarrow> length (nodes h) \<le> n" by simp_all
  from assms a have "merge_attachAll k True r m cs h1 = Inr h'"
    by (simp add: commentsTree_def split: sum.splits)
  from merge_attachAll_appended[OF m g1 this] show ?thesis .
qed

text \<open>Building a tree from nothing changes no object of the store.\<close>

lemma segregated_start: "segregated (length (nodes h)) (length (arrays h)) h"
  unfolding segregated_def by (intro allI impI) arith

lemma newNode_segregated:
  assumes "segregated N A g" "A \<le> length (arrays g)" "N \<le> length (nodes g)"
  shows "segregated N A (snd (newNode c g))
       \<and> take N (nodes (snd (newNode c g))) = take N (nodes g)
       \<and> take A (arrays (snd (newNode c g))) = take A (arrays g)"
proof -
  have "segregated N A (snd (newNode c g))"
    unfolding segregated_def
  proof (intro allI impI)
    fix x assume x: "N \<le> x \<and> x < length (nodes (snd (newNode c g)))"
    show "(\<exists>a. children (nodes (snd (newNode c g)) ! x) = Some a \<and> A \<le> a)
        \<and> (\<forall>p. parent (nodes (snd (newNode c g)) ! x) = Some (NodeRef p)
              \<longrightarrow> N \<le> p \<and> p < length (nodes (snd (newNode c g))))"
    proof (cases "x < length (nodes g)")
      case True
      with assms(1) x have "(\<exists>a. children (nodes g ! x) = Some a \<and> A \<le> a)
        \<and> (\<forall>p. parent (nodes g ! x) = Some (NodeRef p) \<longrightarrow> N \<le> p \<and> p < length (nodes g))"
        unfolding segregated_def by blast
      then show ?thesis using True by (auto simp: newNode_def nth_append)
    next
      case False
      with x have "x = length (nodes g)" by (simp add: newNode_def)
      then show ?thesis using assms(2) by (simp add: newNode_def)
    qed
  qed
  then show ?thesis using assms(2,3) by (simp add: newNode_def)
qed

lemma allocateNodes_segregated:
  assumes "allocateNodes cs m g = (m', g')" "segregated N A g" "A \<le> length (arrays g)"
    "N \<le> length (nodes g)" "\<forall>k n. m k = Some n \<longrightarrow> N \<le> n \<and> n < length (nodes g)"
  shows "segregated N A g' \<and> take N (nodes g') = take N (nodes g)
       \<and> take A (arrays g') = take A (arrays g)
       \<and> (\<forall>k n. m' k = Some n \<longrightarrow> N \<le> n \<and> n < length (nodes g'))
       \<and> length (nodes g) \<le> length (nodes g')"
  using assms
proof (induction cs arbitrary: m g)
  case Nil
  then show ?case by simp
next
  case (Cons c cs)
  let ?g1 = "snd (newNode (Some c) g)"
  have run: "allocateNodes cs (m(id' c \<mapsto> length (nodes g))) ?g1 = (m', g')"
    using Cons.prems(1) by (simp add: newNode_def)
  from newNode_segregated[OF Cons.prems(2,3,4)]
  have s1: "segregated N A ?g1" and t1: "take N (nodes ?g1) = take N (nodes g)"
    "take A (arrays ?g1) = take A (arrays g)" by simp_all
  have l1: "A \<le> length (arrays ?g1)" "N \<le> length (nodes ?g1)"
    "length (nodes ?g1) = Suc (length (nodes g))"
    using Cons.prems(3,4) by (simp_all add: newNode_def)
  have m1: "\<forall>k n. (m(id' c \<mapsto> length (nodes g))) k = Some n \<longrightarrow> N \<le> n \<and> n < length (nodes ?g1)"
    using Cons.prems(4,5) l1(3) by (auto simp: less_Suc_eq)
  from Cons.IH[OF run s1 l1(1,2) m1] t1 l1(3) show ?case by simp
qed

lemma append_child_link:
  "children (nodes h ! p) \<noteq> None \<Longrightarrow> append_child p n h = link n (NodeRef p) h"
  by (auto simp: append_child_def link_commute)

lemma merge_attachAll_segregated:
  assumes "merge_attachAll k False root m cs h = Inr h'" "segregated N A h"
    "\<forall>k n. m k = Some n \<longrightarrow> N \<le> n \<and> n < length (nodes h)" "N \<le> root" "root < length (nodes h)"
  shows "take N (nodes h') = take N (nodes h) \<and> take A (arrays h') = take A (arrays h)"
  using assms
proof (induction cs arbitrary: h)
  case Nil
  then show ?case by simp
next
  case (Cons c cs)
  from Cons.prems(1) obtain n where n: "m (id' c) = Some n"
    by (auto simp: merge_attach_def split: option.splits)
  define p where "p = (if truthy (parentId c) then
      (case m (the (parentId c)) of Some q \<Rightarrow> q | None \<Rightarrow> root) else root)"
  have pr: "N \<le> p \<and> p < length (nodes h)"
    using Cons.prems(3,4,5) by (auto simp: p_def split: option.splits)
  with Cons.prems(2) have "\<exists>a. children (nodes h ! p) = Some a \<and> A \<le> a"
    unfolding segregated_def by blast
  then have "children (nodes h ! p) \<noteq> None" by auto
  then have ap: "append_child p n h = link n (NodeRef p) h" by (rule append_child_link)
  have step: "merge_attach k False root m c h = Inr (link n (NodeRef p) h)"
    using n ap by (auto simp: merge_attach_def p_def split: option.splits)
  let ?h1 = "link n (NodeRef p) h"
  have run: "merge_attachAll k False root m cs ?h1 = Inr h'" using Cons.prems(1) step by simp
  have nn: "N \<le> n" using n Cons.prems(3) by blast
  from link_segregated[OF Cons.prems(2) nn] pr
  have s: "segregated N A ?h1" "take N (nodes ?h1) = take N (nodes h)"
    "take A (arrays ?h1) = take A (arrays h)" by simp_all
  have len: "length (nodes ?h1) = length (nodes h)" by (simp add: link_nodes)
  from Cons.IH[OF run s(1)] Cons.prems(3,4,5) len s show ?case by simp
qed

lemma commentsTree_extends:
  assumes "commentsTree k cs None h = Inr (t, h')"
  shows "\<exists>ns as. nodes h' = nodes h @ ns \<and> arrays h' = arrays h @ as"
proof -
  let ?N = "length (nodes h)" and ?A = "length (arrays h)"
  let ?h0 = "snd (newNode None h)"
  obtain m h1 where a: "allocateNodes cs Map.empty ?h0 = (m, h1)"
    by (cases "allocateNodes cs Map.empty ?h0")
  from assms a have run: "merge_attachAll k False ?N m cs h1 = Inr h'"
    by (simp add: commentsTree_def case_prod_beta newNode_simps(1) split: sum.splits)
  from newNode_segregated[OF segregated_start, of h None]
  have s0: "segregated ?N ?A ?h0" "take ?N (nodes ?h0) = nodes h" "take ?A (arrays ?h0) = arrays h"
    by simp_all
  have l0: "?A \<le> length (arrays ?h0)" "?N \<le> length (nodes ?h0)" "?N < length (nodes ?h0)"
    by (simp_all add: newNode_def)
  from allocateNodes_segregated[OF a s0(1) l0(1,2)]
  have s1: "segregated ?N ?A h1" and t1: "take ?N (nodes h1) = nodes h"
    "take ?A (arrays h1) = arrays h"
    and m: "\<forall>k n. m k = Some n \<longrightarrow> ?N \<le> n \<and> n < length (nodes h1)"
    and l1: "?N < length (nodes h1)"
    using s0(2,3) l0(3) by simp_all
  from merge_attachAll_segregated[OF run s1 m _ l1] t1
  have "take ?N (nodes h') = nodes h" "take ?A (arrays h') = arrays h" by simp_all
  then have "nodes h' = nodes h @ drop ?N (nodes h')" "arrays h' = arrays h @ drop ?A (arrays h')"
    by (metis append_take_drop_id)+
  then show ?thesis by blast
qed

subsection \<open>The new-comment case on a store\<close>

lemma append_child_length: "length (nodes (append_child p n h)) = length (nodes h)"
  by (simp add: append_child_def set_parent_def set_children_def push_child_def
        split: option.splits)

lemma replaceChildren_extends:
  "replaceChildren t xs acc h = Inr (ys, h')
     \<Longrightarrow> \<exists>ns. nodes h' = nodes h @ ns \<and> arrays h' = arrays h"
proof (induction xs arbitrary: acc h)
  case Nil
  then show ?case by simp
next
  case (Cons x xs)
  from Cons.prems obtain cx cr where c: "comment (nodes h ! x) = Some cx" "comment (nodes h ! t) = Some cr"
    by (auto split: option.splits)
  show ?case
  proof (cases "id' cx = id' cr")
    case True
    with Cons.prems c have "replaceChildren t xs (acc @ [length (nodes h)])
        (h\<lparr>nodes := nodes h @ [nodes h ! t]\<rparr>) = Inr (ys, h')"
      by (simp add: copyNode_def)
    from Cons.IH[OF this] show ?thesis by auto
  next
    case False
    with Cons.prems c have "replaceChildren t xs (acc @ [x]) h = Inr (ys, h')" by simp
    from Cons.IH[OF this] show ?thesis .
  qed
qed

lemma addComment_length:
  "addComment k r c h = Inr (n, h1) \<Longrightarrow> length (nodes h1) = Suc (length (nodes h))"
  by (auto simp: addComment_def newNode_def append_child_length split: sum.splits if_splits)

text \<open>
  What follows the insertion: either nothing but the copy of the root, or the copies of
  the top-level ancestor, a new children array for the root, and the copy of the root.
\<close>

lemma newCommentAdded_shape:
  assumes "newCommentAdded_case k state (CommentPayload p c) h = Inr (state', h')"
    and "items state p = Some it"
  shows "\<exists>n h1 h3 z. addComment k (comments it) c h = Inr (n, h1)
           \<and> (h3 = h1 \<or> (\<exists>ys h2 ns q. nodes h2 = nodes h1 @ ns \<and> arrays h2 = arrays h1
                             \<and> h3 = set_children (comments it) ys h2
                             \<and> parent (nodes h1 ! n) = Some q \<and> parentNotNull h1 q))
           \<and> h' = snd (copyNode (comments it) h3)
           \<and> state' = state\<lparr>items := (items state)(p \<mapsto>
                         it\<lparr>comments := length (nodes h3), zIndexTop := z\<rparr>)\<rparr>"
proof -
  let ?r = "comments it"
  from assms obtain n h1 where add: "addComment k ?r c h = Inr (n, h1)"
    by (auto simp: newCommentAdded_case_def split: sum.splits)
  from assms add obtain q where q: "parent (nodes h1 ! n) = Some q"
    by (auto simp: newCommentAdded_case_def split: option.splits)
  show ?thesis
  proof (cases "parentNotNull h1 q \<and> children (nodes h1 ! ?r) \<noteq> None")
    case False
    with assms add q have "h' = snd (copyNode ?r h1)
        \<and> state' = state\<lparr>items := (items state)(p \<mapsto>
              it\<lparr>comments := length (nodes h1), zIndexTop := Some (plus_one (zIndexTop it))\<rparr>)\<rparr>"
      by (auto simp: newCommentAdded_case_def copyNode_def)
    with add show ?thesis by blast
  next
    case True
    with assms add q obtain t where t: "ascend k h1 n = Inr t"
      by (auto simp: newCommentAdded_case_def split: sum.splits)
    with assms add q True obtain ys h2 where
      r: "replaceChildren t (arrays h1 ! the (children (nodes h1 ! ?r))) [] h1 = Inr (ys, h2)"
      by (auto simp: newCommentAdded_case_def split: sum.splits)
    from replaceChildren_extends[OF r] obtain ns where
      ns: "nodes h2 = nodes h1 @ ns" "arrays h2 = arrays h1" by blast
    from assms add q True t r have "h' = snd (copyNode ?r (set_children ?r ys h2))
        \<and> state' = state\<lparr>items := (items state)(p \<mapsto>
              it\<lparr>comments := length (nodes (set_children ?r ys h2)), zIndexTop := zIndexTop it\<rparr>)\<rparr>"
      by (auto simp: newCommentAdded_case_def copyNode_def)
    with add ns q True show ?thesis by blast
  qed
qed

lemma newCommentAdded_fresh_root:
  assumes "newCommentAdded_case k state (CommentPayload p c) h = Inr (state', h')"
  shows "\<exists>it'. items state' p = Some it' \<and> length (nodes h) < comments it'"
proof -
  from assms obtain it where it: "items state p = Some it"
    by (auto simp: newCommentAdded_case_def split: option.splits)
  from newCommentAdded_shape[OF assms it] obtain n h1 h3 z where
    s: "addComment k (comments it) c h = Inr (n, h1)"
       "h3 = h1 \<or> (\<exists>ys h2 ns q. nodes h2 = nodes h1 @ ns \<and> arrays h2 = arrays h1
                             \<and> h3 = set_children (comments it) ys h2
                             \<and> parent (nodes h1 ! n) = Some q \<and> parentNotNull h1 q)"
       "state' = state\<lparr>items := (items state)(p \<mapsto>
                         it\<lparr>comments := length (nodes h3), zIndexTop := z\<rparr>)\<rparr>" by blast
  from addComment_length[OF s(1)] s(2) have "length (nodes h) < length (nodes h3)"
    by (auto simp: set_children_def)
  with s(3) show ?thesis by simp
qed

lemma nested_reply_run:
  "commentsReducer 5 (\<lambda>i. 2000) scenario_state (newCommentAdded ''p'' reply_x) scenario_heap
     = Inr (after_reply_state, after_reply_heap)"
  by (simp add: commentsReducer_def newCommentAdded_def newCommentAdded_case_def
        typeCommentsAdded_def typeMoreCommentsAdded_def typeNewCommentAdded_def
        scenario_state_def scenario_heap_def reply_x_def addComment_def truthy_def
        newNode_def append_child_def push_child_def set_parent_def set_children_def copyNode_def
        root_node_def eval_nat_numeral after_reply_state_def after_reply_heap_def
        comment_node_def parentNotNull_def)

lemma reply_batch_run:
  "commentsReducer 5 (\<lambda>i. 2000) scenario_state (replyCommentsAdded ''p'' [reply_x]) scenario_heap
     = Inr (scenario_state\<lparr>items := [''p'' \<mapsto>
               \<lparr>comments = 5, next = None, zIndexTop = Some (Finite 100000),
                fetchedAt = Some 1000, lastFetchedAt = Some 2000\<rparr>]\<rparr>, after_batch_heap)"
  by (simp add: commentsReducer_def replyCommentsAdded_def replyCommentsAdded_case_def
        typeCommentsAdded_def typeMoreCommentsAdded_def typeNewCommentAdded_def
        typeReplyCommentsAdded_def commentsTree_def merge_attach_def
        scenario_state_def scenario_heap_def reply_x_def truthy_def
        newNode_def append_child_def push_child_def set_parent_def set_children_def copyNode_def
        root_node_def eval_nat_numeral after_batch_heap_def comment_node_def)

lemma newCommentAdded_grown:
  assumes "newCommentAdded_case k state (CommentPayload p c) h = Inr (state', h')"
  shows "grown h h'"
proof -
  from assms obtain it where it: "items state p = Some it"
    by (auto simp: newCommentAdded_case_def split: option.splits)
  from newCommentAdded_shape[OF assms it] obtain n h1 h3 where
    s: "addComment k (comments it) c h = Inr (n, h1)"
       "h3 = h1 \<or> (\<exists>ys h2 ns. nodes h2 = nodes h1 @ ns \<and> arrays h2 = arrays h1
                             \<and> h3 = set_children (comments it) ys h2)"
       "h' = snd (copyNode (comments it) h3)" by blast
  from s(1) obtain q where "h1 = append_child q (length (nodes h)) (snd (newNode (Some c) h))"
    by (auto simp: addComment_def newNode_def split: sum.splits if_splits)
  moreover have "appended h (append_child q (length (nodes h)) (snd (newNode (Some c) h)))"
    by (rule appended_append_child[OF appended_newNode[OF appended_refl]]) simp
  ultimately have g1: "grown h h1" by (simp add: appended_grown)
  have "grown h h3"
    using s(2)
  proof
    assume "h3 = h1"
    with g1 show ?thesis by simp
  next
    assume "\<exists>ys h2 ns. nodes h2 = nodes h1 @ ns \<and> arrays h2 = arrays h1
              \<and> h3 = set_children (comments it) ys h2"
    then obtain ys h2 ns where h2: "nodes h2 = nodes h1 @ ns" "arrays h2 = arrays h1 @ []"
      "h3 = set_children (comments it) ys h2" by auto
    from grown_lengths[OF g1] have l: "length (nodes h) \<le> length (nodes h1)"
      "length (arrays h) \<le> length (arrays h1)" by simp_all
    from grown_step[OF g1 kept_extension[OF h2(1,2) l]] have g2: "grown h h2" .
    from grown_lengths[OF g2] have "length (arrays h) \<le> length (arrays h2)" by simp
    from grown_step[OF g2 kept_set_children[OF this]] h2(3) show ?thesis by simp
  qed
  from grown_copyNode[OF this] s(3) show ?thesis by simp
qed

lemma bare_run:
  "commentsReducer 5 (\<lambda>i. 2000) loaded_state (newCommentAdded ''p'' top_y) bare_heap
     = Inr (loaded_state\<lparr>items := [''p'' \<mapsto>
               \<lparr>comments = 2, next = None, zIndexTop = Some NaN,
                fetchedAt = None, lastFetchedAt = None\<rparr>]\<rparr>, after_bare_heap)"
  by (simp add: commentsReducer_def newCommentAdded_def newCommentAdded_case_def
        typeCommentsAdded_def typeMoreCommentsAdded_def typeNewCommentAdded_def
        loaded_state_def bare_heap_def top_y_def addComment_def truthy_def
        newNode_def append_child_def push_child_def set_parent_def set_children_def copyNode_def
        root_node_def after_bare_heap_def parentNotNull_def plus_one_def numeral_2_eq_2)

section \<open>The new-comment case\<close>

lemma refs_ok_array:
  assumes "refs_ok h" "x < length (nodes h)" "children (nodes h ! x) = Some ar"
  shows "ar < length (arrays h) \<and> (\<forall>c\<in>set (arrays h ! ar). c < length (nodes h))"
proof -
  from assms(1,2) have "case children (nodes h ! x) of None \<Rightarrow> True
      | Some ar \<Rightarrow> ar < length (arrays h) \<and> (\<forall>c\<in>set (arrays h ! ar). c < length (nodes h))"
    unfolding refs_ok_def by blast
  with assms(3) show ?thesis by simp
qed


lemma listed_in_valid:
  assumes "refs_ok h" "listed_in h q"
  shows "q < length (nodes h)"
proof -
  from assms(2) obtain x ar where x: "x < length (nodes h)" "children (nodes h ! x) = Some ar"
    "q \<in> set (arrays h ! ar)" unfolding listed_in_def by blast
  from refs_ok_array[OF assms(1) x(1,2)] x(3) show ?thesis by blast
qed


lemma search_found:
  shows "searchTree k h n i = Inr (Some q) \<Longrightarrow> refs_ok h \<Longrightarrow> n < length (nodes h)
           \<Longrightarrow> q = n \<or> listed_in h q"
    and "searchList k h xs i = Inr (Some q) \<Longrightarrow> refs_ok h \<Longrightarrow> \<forall>x\<in>set xs. x < length (nodes h)
           \<Longrightarrow> q \<in> set xs \<or> listed_in h q"
proof (induction k h n i and k h xs i arbitrary: q and q rule: searchTree_searchList.induct)
  case (1 h n i)
  then show ?case by simp
next
  case (2 k h n i)
  show ?case
  proof (cases "case comment (nodes h ! n) of None \<Rightarrow> False | Some c \<Rightarrow> id' c = i")
    case True
    with "2.prems"(1) show ?thesis by simp
  next
    case False
    with "2.prems"(1) obtain ar where ar: "children (nodes h ! n) = Some ar"
      "searchList k h (arrays h ! ar) i = Inr (Some q)"
      by (auto split: option.splits)
    from refs_ok_array[OF "2.prems"(2,3) ar(1)]
    have v: "\<forall>c\<in>set (arrays h ! ar). c < length (nodes h)" by blast
    from "2.IH"[OF False ar(1) ar(2) "2.prems"(2) v]
    have "q \<in> set (arrays h ! ar) \<or> listed_in h q" .
    then have "listed_in h q" using ar(1) "2.prems"(3) unfolding listed_in_def by blast
    then show ?thesis by blast
  qed
next
  case (3 k h i)
  then show ?case by simp
next
  case (4 k h x xs i)
  have x: "x < length (nodes h)" and xs: "\<forall>y\<in>set xs. y < length (nodes h)"
    using "4.prems"(3) by simp_all
  show ?case
  proof (cases "searchTree k h x i")
    case (Inl e)
    with "4.prems"(1) show ?thesis by simp
  next
    case (Inr res)
    show ?thesis
    proof (cases res)
      case None
      with Inr "4.prems"(1) have "searchList k h xs i = Inr (Some q)" by simp
      from "4.IH"(2)[OF Inr None this "4.prems"(2) xs] show ?thesis by auto
    next
      case (Some n)
      with Inr "4.prems"(1) have "searchTree k h x i = Inr (Some q)" by simp
      from "4.IH"(1)[OF this "4.prems"(2) x] show ?thesis by auto
    qed
  qed
qed

lemma addComment_inserted:
  "(if truthy (parentId c) then searchTree k h r (the (parentId c)) else Inr None) = Inr found
   \<Longrightarrow> addComment k r c h
         = Inr (length (nodes h), inserted (case found of None \<Rightarrow> r | Some q \<Rightarrow> q) c h)"
  by (simp add: addComment_def inserted_def case_prod_beta newNode_simps(1))

lemma inserted_length: "length (nodes (inserted p c h)) = Suc (length (nodes h))"
  by (simp add: inserted_def append_child_length newNode_simps)

lemma inserted_old:
  assumes "p < length (nodes h)" "x < length (nodes h)"
  shows "comment (nodes (inserted p c h) ! x) = comment (nodes h ! x)"
    and "parent (nodes (inserted p c h) ! x) = parent (nodes h ! x)"
    and "x \<noteq> p \<Longrightarrow> children (nodes (inserted p c h) ! x) = children (nodes h ! x)"
  using assms
  by (auto simp: inserted_def append_child_def newNode_def set_parent_def set_children_def
        push_child_def nth_append nth_list_update split: option.splits)

lemma inserted_new:
  assumes "p < length (nodes h)"
  shows "parent (nodes (inserted p c h) ! length (nodes h)) = Some (NodeRef p)"
  using assms
  by (auto simp: inserted_def append_child_def newNode_def set_parent_def set_children_def
        push_child_def nth_append nth_list_update split: option.splits)








lemma tree_ok_refs: "tree_ok h \<Longrightarrow> refs_ok h"
  by (simp add: tree_ok_def)







lemma scenario_heap_ok: "tree_ok scenario_heap"
  by (simp add: tree_ok_def refs_ok_def scenario_heap_def root_node_def less_Suc_eq nth_Cons'
        all_conj_distrib)

subsection \<open>What an insertion changes\<close>

lemma found_valid:
  assumes "refs_ok h" "r < length (nodes h)"
    and "(if truthy (parentId c) then searchTree k h r (the (parentId c)) else Inr None) = Inr found"
  shows "(case found of None \<Rightarrow> r | Some q \<Rightarrow> q) < length (nodes h)"
proof (cases found)
  case None
  then show ?thesis using assms(2) by simp
next
  case (Some q)
  with assms(3) have "searchTree k h r (the (parentId c)) = Inr (Some q)"
    by (simp split: if_splits)
  from search_found(1)[OF this assms(1,2)] listed_in_valid[OF assms(1)] assms(2) Some
  show ?thesis by auto
qed

lemma inserted_other:
  "p < length (nodes h) \<Longrightarrow> x < length (nodes h) \<Longrightarrow> x \<noteq> p \<or> children (nodes h ! p) \<noteq> None
     \<Longrightarrow> nodes (inserted p c h) ! x = nodes h ! x"
  by (auto simp: inserted_def append_child_def newNode_def set_parent_def set_children_def
        push_child_def nth_append nth_list_update split: option.splits)

lemma inserted_same:
  assumes "p < length (nodes h)" "x < length (nodes h)"
  shows "same_but_children (nodes h ! x) (nodes (inserted p c h) ! x)"
    and "children (nodes (inserted p c h) ! x) = children (nodes h ! x)
         \<or> (\<exists>a\<ge>length (arrays h). children (nodes (inserted p c h) ! x) = Some a)"
  using assms
  by (auto simp: inserted_def append_child_def newNode_def set_parent_def set_children_def
        push_child_def nth_append nth_list_update same_but_children_def split: option.splits)

lemma inserted_arrays:
  assumes "p < length (nodes h)" "a < length (arrays h)"
  shows "arrays (inserted p c h) ! a
           = arrays h ! a @ (if children (nodes h ! p) = Some a then [length (nodes h)] else [])"
  using assms
  by (auto simp: inserted_def append_child_def newNode_def set_parent_def set_children_def
        push_child_def nth_append nth_list_update split: option.splits)

lemma inserted_arrays_length: "length (arrays h) < length (arrays (inserted p c h))"
  by (auto simp: inserted_def append_child_def newNode_def set_parent_def set_children_def
        push_child_def split: option.splits)

text \<open>
  A new-comment event on a store without dangling references changes, of the objects it
  was given, the children array of the parent and, at most in their \<^verbatim>\<open>children\<close> field,
  the parent and the root.
\<close>

lemma new_comment_one_insertion:
  assumes run: "newCommentAdded_case k state (CommentPayload p c) h = Inr (state', h')"
    and it: "items state p = Some it" and refs: "refs_ok h"
    and r: "comments it < length (nodes h)"
    and s: "(if truthy (parentId c) then searchTree k h (comments it) (the (parentId c))
            else Inr None) = Inr found"
  shows "one_insertion h (comments it) (case found of None \<Rightarrow> comments it | Some q \<Rightarrow> q) h'"
proof -
  let ?r = "comments it" and ?N = "length (nodes h)" and ?A = "length (arrays h)"
  let ?P = "case found of None \<Rightarrow> ?r | Some q \<Rightarrow> q"
  let ?h1 = "inserted ?P c h"
  have P: "?P < ?N" by (rule found_valid[OF refs r s])
  have add: "addComment k ?r c h = Inr (?N, ?h1)" using addComment_inserted[OF s] by simp
  have pn: "parent (nodes ?h1 ! ?N) = Some (NodeRef ?P)" by (rule inserted_new[OF P])
  have pp: "parent (nodes ?h1 ! ?P) = parent (nodes h ! ?P)" by (rule inserted_old(2)[OF P P])
  from newCommentAdded_shape[OF run it] add obtain h3 where
    h3: "h3 = ?h1 \<or> (\<exists>ys h2 ns q. nodes h2 = nodes ?h1 @ ns \<and> arrays h2 = arrays ?h1
                             \<and> h3 = set_children ?r ys h2
                             \<and> parent (nodes ?h1 ! ?N) = Some q \<and> parentNotNull ?h1 q)"
    and h': "h' = snd (copyNode ?r h3)" by auto
  then have h3': "h3 = ?h1 \<or> (parent (nodes h ! ?P) \<noteq> None
        \<and> (\<exists>ys h2 ns. nodes h2 = nodes ?h1 @ ns \<and> arrays h2 = arrays ?h1
                 \<and> h3 = set_children ?r ys h2))"
    using pn pp by (auto simp: parentNotNull_def)
  have l1: "length (nodes ?h1) = Suc ?N" by (rule inserted_length)
  have a1: "?A < length (arrays ?h1)" by (rule inserted_arrays_length)
  have later_nodes: "(x \<noteq> ?r \<or> parent (nodes h ! ?P) = None \<longrightarrow> nodes h' ! x = nodes ?h1 ! x)
        \<and> same_but_children (nodes ?h1 ! x) (nodes h' ! x)
        \<and> (children (nodes h' ! x) = children (nodes ?h1 ! x)
             \<or> (\<exists>a\<ge>?A. children (nodes h' ! x) = Some a))" if x: "x < ?N" for x
    using h3'
  proof
    assume "h3 = ?h1"
    then show ?thesis using h' x l1 by (simp add: copyNode_def nth_append same_but_children_def)
  next
    assume n: "parent (nodes h ! ?P) \<noteq> None
        \<and> (\<exists>ys h2 ns. nodes h2 = nodes ?h1 @ ns \<and> arrays h2 = arrays ?h1
                 \<and> h3 = set_children ?r ys h2)"
    then obtain ys h2 ns where h2: "nodes h2 = nodes ?h1 @ ns" "arrays h2 = arrays ?h1"
      "h3 = set_children ?r ys h2" by blast
    have "nodes h' ! x = (if x = ?r then (nodes ?h1 ! x)\<lparr>children := Some (length (arrays ?h1))\<rparr>
                          else nodes ?h1 ! x)"
      using h' h2 x l1 by (simp add: copyNode_def set_children_def nth_append nth_update_any)
    then show ?thesis using a1 n by (auto simp: same_but_children_def)
  qed
  have later_arrays: "arrays h' ! a = arrays ?h1 ! a" if a: "a < ?A" for a
    using h3
  proof
    assume "h3 = ?h1"
    then show ?thesis using h' by (simp add: copyNode_def)
  next
    assume "\<exists>ys h2 ns q. nodes h2 = nodes ?h1 @ ns \<and> arrays h2 = arrays ?h1
              \<and> h3 = set_children ?r ys h2
              \<and> parent (nodes ?h1 ! ?N) = Some q \<and> parentNotNull ?h1 q"
    then obtain ys h2 ns where h2: "nodes h2 = nodes ?h1 @ ns" "arrays h2 = arrays ?h1"
      "h3 = set_children ?r ys h2" by blast
    then show ?thesis using h' a a1 by (simp add: copyNode_def set_children_def nth_append)
  qed
  show ?thesis
    unfolding one_insertion_def
  proof (intro conjI allI impI)
    fix x assume x: "x < ?N"
      and c: "(x \<noteq> ?r \<or> parent (nodes h ! ?P) = None) \<and> (x \<noteq> ?P \<or> children (nodes h ! ?P) \<noteq> None)"
    then show "nodes h' ! x = nodes h ! x"
      using later_nodes[OF x] inserted_other[OF P x, of c] by simp
  next
    fix x assume x: "x < ?N"
    show "same_but_children (nodes h ! x) (nodes h' ! x)"
      using later_nodes[OF x] inserted_same(1)[OF P x, of c] by (simp add: same_but_children_def)
    show "children (nodes h' ! x) = children (nodes h ! x)
          \<or> (\<exists>a\<ge>?A. children (nodes h' ! x) = Some a)"
      using later_nodes[OF x] inserted_same(2)[OF P x, of c] by auto
  next
    fix a assume a: "a < ?A"
    show "arrays h' ! a = arrays h ! a @ (if children (nodes h ! ?P) = Some a then [?N] else [])"
      using later_arrays[OF a] inserted_arrays[OF P a, of c] by simp
  qed
qed

section \<open>The reducer: supporting facts\<close>

lemma reducer_ids:
  "commentsReducer k now state a h = Inr (state', h') \<Longrightarrow> ids state' = ids state"
  by (auto simp: commentsReducer_def commentsAdded_case_def moreCommentsAdded_case_def
        newCommentAdded_case_def replyCommentsAdded_case_def commentsLoaded_case_def
        copyNode_def
      split: if_splits payload.splits sum.splits option.splits prod.splits)

lemma commentsAdded_guard:
  "p \<in> set (ids state) \<Longrightarrow>
     commentsReducer k now state (commentsAdded p cs nxt) h = Inr (state, h)"
  by (simp add: commentsReducer_def commentsAdded_def commentsAdded_case_def)

lemma moreCommentsAdded_items:
  "commentsReducer k now state (moreCommentsAdded p t nxt) h = Inr (state', h')
   \<Longrightarrow> q \<noteq> p \<Longrightarrow> items state' q = None"
  by (auto simp: commentsReducer_def moreCommentsAdded_def moreCommentsAdded_case_def
        typeCommentsAdded_def typeMoreCommentsAdded_def)

lemma moreCommentsAdded_entry:
  "items state p = Some it \<Longrightarrow>
     \<exists>state'. commentsReducer k now state (moreCommentsAdded p t nxt) h = Inr (state', h)
       \<and> items state' p = Some (it\<lparr>comments := t, next := nxt, lastFetchedAt := Some (now 0)\<rparr>)"
  by (simp add: commentsReducer_def moreCommentsAdded_def moreCommentsAdded_case_def
        typeCommentsAdded_def typeMoreCommentsAdded_def spread_item_def)

lemmas cTPO_defs = commentsTreePreserveOrder_def newNode_def attach_def getProp_def setProp_def
  emptyObject_def objectPrototypeNames_def push_child_def set_parent_def truthy_def root_node_def
  empty_heap_def

lemma scenario_run:
  "commentsTreePreserveOrder scenario empty_heap = Inr (0, scenario_heap)"
  by (simp add: cTPO_defs scenario_def scenario_heap_def)

lemma inherited_run:
  "commentsTreePreserveOrder inherited_batch empty_heap = Inr (0, inherited_heap)"
  by (simp add: cTPO_defs inherited_batch_def inherited_heap_def)

lemma twice_run:
  "commentsTreePreserveOrder twice_batch empty_heap = Inr (0, twice_heap)"
  by (simp add: cTPO_defs twice_batch_def twice_heap_def)


lemma self_parent_run:
  "commentsTreePreserveOrder self_parent empty_heap = Inr (0, self_parent_heap)"
  by (simp add: cTPO_defs self_parent_def self_parent_heap_def)

lemma reducer_cases:
  assumes "commentsReducer k now state a h = Inr (state', h')"
  obtains (added) "type' a = typeCommentsAdded"
      "commentsAdded_case k now state (payload a) h = Inr (state', h')"
    | (more) "type' a = typeMoreCommentsAdded"
      "moreCommentsAdded_case now state (payload a) h = Inr (state', h')"
    | (new) "type' a = typeNewCommentAdded"
      "newCommentAdded_case k state (payload a) h = Inr (state', h')"
    | (reply) "type' a = typeReplyCommentsAdded"
      "replyCommentsAdded_case k now state (payload a) h = Inr (state', h')"
    | (loaded) "type' a = typeCommentsLoaded"
      "commentsLoaded_case state (payload a) h = Inr (state', h')"
    | (other) "type' a \<notin> {typeCommentsAdded, typeMoreCommentsAdded, typeNewCommentAdded,
         typeReplyCommentsAdded, typeCommentsLoaded}" "state' = state" "h' = h"
  using assms by (auto simp: commentsReducer_def split: if_splits)

lemma type_names_distinct:
  "typeNewCommentAdded \<noteq> typeCommentsAdded" "typeNewCommentAdded \<noteq> typeMoreCommentsAdded"
  "typeReplyCommentsAdded \<noteq> typeCommentsAdded" "typeReplyCommentsAdded \<noteq> typeMoreCommentsAdded"
  "typeReplyCommentsAdded \<noteq> typeNewCommentAdded"
  by (simp_all add: typeCommentsAdded_def typeMoreCommentsAdded_def typeNewCommentAdded_def
        typeReplyCommentsAdded_def)

text \<open>The three kinds of events that do not insert into a stored tree only add objects.\<close>

lemma commentsAdded_extends:
  "commentsAdded_case k now state pl h = Inr (state', h')
     \<Longrightarrow> \<exists>ns as. nodes h' = nodes h @ ns \<and> arrays h' = arrays h @ as"
  by (auto simp: commentsAdded_case_def split: payload.splits if_splits sum.splits
      dest: commentsTree_extends)

lemma moreCommentsAdded_extends:
  "moreCommentsAdded_case now state pl h = Inr (state', h')
     \<Longrightarrow> \<exists>ns as. nodes h' = nodes h @ ns \<and> arrays h' = arrays h @ as"
  by (auto simp: moreCommentsAdded_case_def split: payload.splits)

lemma commentsLoaded_extends:
  "commentsLoaded_case state pl h = Inr (state', h')
     \<Longrightarrow> \<exists>ns as. nodes h' = nodes h @ ns \<and> arrays h' = arrays h @ as"
  by (auto simp: commentsLoaded_case_def split: payload.splits sum.splits dest: cTPO_extends)

lemma replyCommentsAdded_appended:
  assumes "replyCommentsAdded_case k now state pl h = Inr (state', h')"
  shows "appended h h'"
proof (cases pl)
  case (ListPayload p cs nxt)
  with assms obtain it where it: "items state p = Some it"
    by (auto simp: replyCommentsAdded_case_def split: option.splits)
  with assms ListPayload obtain new where new: "newComments k h (comments it) cs = Inr new"
    by (auto simp: replyCommentsAdded_case_def split: sum.splits)
  with assms ListPayload it obtain t h1 where
    ct: "commentsTree k new (Some (comments it)) h = Inr (t, h1)"
    by (auto simp: replyCommentsAdded_case_def split: sum.splits)
  with assms ListPayload it new have "h' = snd (copyNode t h1)"
    by (auto simp: replyCommentsAdded_case_def copyNode_def)
  with appended_copyNode[OF commentsTree_appended[OF ct]] show ?thesis by simp
qed (use assms in \<open>simp_all add: replyCommentsAdded_case_def\<close>)

section \<open>The claims\<close>

text \<open>
  A supporting fact for C1: when no \<^verbatim>\<open>parentId\<close> of the batch is a key the lookup object
  inherits, the ids of the root's children are, in the same order, the ids of the records
  whose \<^verbatim>\<open>parentId\<close> is absent (or empty) or names no record of the batch. Ids may repeat
  and parent references may be cyclic.
\<close>

lemma top_level_order_plain:
  assumes "plain cs"
  shows "\<exists>root h'. commentsTreePreserveOrder cs h = Inr (root, h')
     \<and> map (idOf h') (childrenOf h' root) = map (\<lambda>c. Some (id' c)) (filter (top_level cs) cs)"
proof -
  have "map (idOf (built cs h)) (childrenOf (built cs h) (length (nodes h)))
          = map (\<lambda>c. Some (id' c)) (filter (top_level cs) cs)"
    by (simp add: built_root_children[OF assms] built_idOf)
  then show ?thesis using cTPO_eq[of cs h] by blast
qed

text \<open>
  C1, at a failing input. The batch holds a comment \<open>a\<close> and a reply \<open>d\<close> whose \<^verbatim>\<open>parentId\<close> is
  \<^verbatim>\<open>constructor\<close>, the id of no record, so that both records are top-level in the sense of
  the claim. \<^verbatim>\<open>nodeMap\<close> being a plain object, \<^verbatim>\<open>nodeMap['constructor']\<close> is the inherited
  function \<^verbatim>\<open>Object\<close>, which is truthy: \<open>d\<close> is given it as parent and is pushed nowhere. The
  root's children are \<open>a\<close> alone.
\<close>

theorem inherited_key_taken_for_parent:
  "commentsTreePreserveOrder inherited_batch empty_heap = Inr (0, inherited_heap)
   \<and> map parentId inherited_batch = [None, Some ''constructor'']
   \<and> ''constructor'' \<notin> set (map id' inherited_batch)
   \<and> map (idOf inherited_heap) (childrenOf inherited_heap 0) = [Some ''a'']
   \<and> map (\<lambda>c. Some (id' c)) inherited_batch = [Some ''a'', Some ''d'']"
  by (simp add: inherited_run)
     (simp add: inherited_batch_def inherited_heap_def idOf_def childrenOf_def root_node_def)

text \<open>
  C2, at a failing input. The state holds entries for the posts \<open>p\<close> and \<open>q\<close>; the
  older-page event for \<open>p\<close> returns a state in which the entry of \<open>q\<close> is gone: the case
  builds \<^verbatim>\<open>items\<close> from the entry of \<open>p\<close> alone, where every other case spreads
  \<^verbatim>\<open>state.items\<close> first. The entry of \<open>p\<close> itself changes in \<^verbatim>\<open>comments\<close>, \<^verbatim>\<open>next\<close> and
  \<^verbatim>\<open>lastFetchedAt\<close> only.
\<close>

theorem moreCommentsAdded_drops_other_posts:
  "items two_posts ''q'' \<noteq> None \<and>
   (case commentsReducer 0 (\<lambda>i. 30) two_posts (moreCommentsAdded ''p'' 2 None) three_roots of
      Inl e \<Rightarrow> False
    | Inr (state', h') \<Rightarrow>
        items state' ''q'' = None
        \<and> items state' ''p'' = Some \<lparr>comments = 2, next = None, zIndexTop = Some (Finite 100000),
               fetchedAt = Some 10, lastFetchedAt = Some 30\<rparr>)"
  by (simp add: commentsReducer_def moreCommentsAdded_def moreCommentsAdded_case_def
        typeCommentsAdded_def typeMoreCommentsAdded_def two_posts_def spread_item_def)

text \<open>
  C3, at a failing input. The initial-load event for \<open>p\<close> on the initial state gives a state
  with an entry for \<open>p\<close> and with \<^verbatim>\<open>ids\<close> still empty (no case of the reducer ever changes
  \<^verbatim>\<open>ids\<close>, see \<open>reducer_ids\<close>). Firing the same event again, one second later, does not
  return that state: the guard \<^verbatim>\<open>state.ids.includes(postId)\<close> does not fire, a new root is
  allocated and both timestamps are reset.
\<close>

theorem commentsAdded_refire_rebuilds:
  "commentsReducer 0 (\<lambda>i. 1000) initialState (commentsAdded ''p'' [] None) empty_heap
     = Inr (once_state, once_heap)
   \<and> commentsReducer 0 (\<lambda>i. 2000) once_state (commentsAdded ''p'' [] None) once_heap
     = Inr (\<lparr>ids = [],
             items = [''p'' \<mapsto> \<lparr>comments = 1, next = None, zIndexTop = Some (Finite 100000),
                                 fetchedAt = Some 2000, lastFetchedAt = Some 2000\<rparr>]\<rparr>,
            \<lparr>nodes = [root_node 0, root_node 1], arrays = [[], []]\<rparr>)"
  by (simp add: commentsReducer_def commentsAdded_def commentsAdded_case_def commentsTree_def
        newNode_def initialState_def empty_heap_def once_state_def once_heap_def root_node_def
        defaultCommentZIndex_def)







text \<open>
  C6. Let the store have no dangling references and let the state hold an entry for \<open>p\<close>.
  If \<^verbatim>\<open>searchTree\<close> finds the id of every record of the batch in the stored tree, the
  reply-batch event returns, and the tree of the new entry has as many nodes as the old
  one, whatever depth the walk is allowed: below the new root object it consists of the
  very same nodes. (\<^verbatim>\<open>searchTree\<close> and \<^verbatim>\<open>commentsTree\<close> are modelled from the spec.)
\<close>

theorem reply_batch_all_present:
  assumes "refs_ok h" and "items state p = Some it" and "comments it < length (nodes h)"
    and "\<forall>c\<in>set cs. \<exists>n. searchTree k h (comments it) (id' c) = Inr (Some n)"
  shows "\<exists>state' h' it'. commentsReducer k now state (replyCommentsAdded p cs) h = Inr (state', h')
           \<and> items state' p = Some it'
           \<and> (\<forall>j. length (treeNodes j h' (comments it')) = length (treeNodes j h (comments it))
                  \<and> tl (treeNodes j h' (comments it')) = tl (treeNodes j h (comments it)))"
proof -
  let ?h' = "h\<lparr>nodes := nodes h @ [nodes h ! comments it]\<rparr>"
  let ?it' = "it\<lparr>comments := length (nodes h), lastFetchedAt := Some (now 0)\<rparr>"
  have run: "commentsReducer k now state (replyCommentsAdded p cs) h
               = Inr (state\<lparr>items := (items state)(p \<mapsto> ?it')\<rparr>, ?h')"
    using assms(2) newComments_all_found[OF assms(4)]
    by (simp add: commentsReducer_def replyCommentsAdded_def replyCommentsAdded_case_def
          typeCommentsAdded_def typeMoreCommentsAdded_def typeNewCommentAdded_def
          typeReplyCommentsAdded_def commentsTree_nothing copyNode_def)
  have "length (treeNodes j ?h' (length (nodes h))) = length (treeNodes j h (comments it))
          \<and> tl (treeNodes j ?h' (length (nodes h))) = tl (treeNodes j h (comments it))" for j
    unfolding treeNodes_copy[OF assms(1,3)] by (cases "treeNodes j h (comments it)") simp_all
  then show ?thesis using run by simp
qed

theorem reply_batch_all_present_witness:
  "refs_ok scenario_heap \<and> items scenario_state ''p'' \<noteq> None
   \<and> searchTree 5 scenario_heap 0 ''b'' = Inr (Some 3)
   \<and> searchTree 5 scenario_heap 0 ''c'' = Inr (Some 1)
   \<and> (\<exists>state' h' it'.
         commentsReducer 5 (\<lambda>i. 2000) scenario_state
             (replyCommentsAdded ''p'' [\<lparr>id' = ''b'', parentId = Some ''a'', body = []\<rparr>,
                                       \<lparr>id' = ''c'', parentId = None, body = []\<rparr>]) scenario_heap
           = Inr (state', h')
         \<and> items state' ''p'' = Some it'
         \<and> (\<forall>j. length (treeNodes j h' (comments it')) = length (treeNodes j scenario_heap 0)
                \<and> tl (treeNodes j h' (comments it')) = tl (treeNodes j scenario_heap 0)))"
proof -
  have s: "searchTree 5 scenario_heap 0 ''b'' = Inr (Some 3)"
          "searchTree 5 scenario_heap 0 ''c'' = Inr (Some 1)"
    by (simp_all add: scenario_heap_def root_node_def eval_nat_numeral)
  have r: "refs_ok scenario_heap" by (rule tree_ok_refs[OF scenario_heap_ok])
  have i: "items scenario_state ''p'' = Some \<lparr>comments = 0, next = None,
                          zIndexTop = Some (Finite 100000),
                          fetchedAt = Some 1000, lastFetchedAt = Some 1000\<rparr>"
    by (simp add: scenario_state_def)
  show ?thesis
    using reply_batch_all_present[OF r i, of "[\<lparr>id' = ''b'', parentId = Some ''a'', body = []\<rparr>,
                                       \<lparr>id' = ''c'', parentId = None, body = []\<rparr>]" 5 "\<lambda>i. 2000"] s r i
    by (simp add: scenario_heap_def)
qed

text \<open>
  C7, as amended. Let the ids of the batch be pairwise distinct and let every chain of
  \<^verbatim>\<open>parentId\<close> references end at a top-level record, without meeting a key the lookup
  object inherits. Then \<^verbatim>\<open>commentsTreePreserveOrder\<close> returns a tree in which the \<open>i\<close>-th
  record is held by the \<open>i\<close>-th node allocated after the root, and a walk from the root
  that may descend more than \<open>|C|\<close> levels meets the root and each of these \<open>|C|\<close> nodes
  exactly once: the tree has \<open>1 + |C|\<close> nodes and no node is listed in two children
  sequences.
\<close>

theorem every_record_once:
  assumes "distinct (map id' cs)" and "\<forall>c\<in>set cs. resolves cs (length cs) c"
  shows "\<exists>root h'. commentsTreePreserveOrder cs h = Inr (root, h')
           \<and> (\<forall>i<length cs. comment (nodes h' ! Suc (root + i)) = Some (cs ! i))
           \<and> (\<forall>k>length cs. mset (treeNodes k h' root) = mset [root..<Suc (root + length cs)]
                  \<and> length (treeNodes k h' root) = Suc (length cs))"
proof -
  let ?N = "length (nodes h)"
  have a: "\<forall>i<length cs. comment (nodes (built cs h) ! Suc (?N + i)) = Some (cs ! i)"
    by (simp add: built_comment_index)
  have b: "mset (treeNodes k (built cs h) ?N) = mset [?N..<Suc (?N + length cs)]"
    if "length cs < k" for k by (rule built_walk[OF assms that])
  have c: "length (treeNodes k (built cs h) ?N) = Suc (length cs)" if "length cs < k" for k
  proof -
    have "size (mset (treeNodes k (built cs h) ?N)) = size (mset [?N..<Suc (?N + length cs)])"
      by (simp only: b[OF that])
    then show ?thesis by (simp del: upt_Suc treeNodes.simps)
  qed
  from a b c show ?thesis using cTPO_eq[of cs h] by blast
qed

theorem every_record_once_witness:
  "distinct (map id' scenario) \<and> list_all (resolves scenario (length scenario)) scenario
   \<and> (\<exists>root h'. commentsTreePreserveOrder scenario empty_heap = Inr (root, h')
           \<and> (\<forall>i<length scenario. comment (nodes h' ! Suc (root + i)) = Some (scenario ! i))
           \<and> (\<forall>k>length scenario.
                  mset (treeNodes k h' root) = mset [root..<Suc (root + length scenario)]
                  \<and> length (treeNodes k h' root) = Suc (length scenario)))"
  using every_record_once[of scenario empty_heap] scenario_resolves
  by (simp add: list_all_iff) (simp add: scenario_def)

text \<open>
  C7 as stated fails, in three ways. For the batch whose only record names itself as its
  parent, the node is pushed onto its own children array and never onto the root's: the
  walk from the root meets the root alone, not \<open>1 + |C| = 2\<close> nodes. For the batch in which
  two records carry the same id, both are attached through the one node \<^verbatim>\<open>nodeMap\<close> keeps
  for the id: node 2 is listed twice and node 1, which holds the first record, not at
  all. For the batch with a reply to \<^verbatim>\<open>constructor\<close>, the reply is attached nowhere: the
  walk meets \<open>2\<close> nodes, not \<open>1 + |C| = 3\<close>.
\<close>

theorem records_lost_or_repeated:
  "commentsTreePreserveOrder self_parent empty_heap = Inr (0, self_parent_heap)
   \<and> treeNodes 4 self_parent_heap 0 = [0]
   \<and> length (treeNodes 4 self_parent_heap 0) \<noteq> 1 + length self_parent
   \<and> commentsTreePreserveOrder twice_batch empty_heap = Inr (0, twice_heap)
   \<and> treeNodes 4 twice_heap 0 = [0, 2, 2]
   \<and> comment (nodes twice_heap ! 1) = Some (twice_batch ! 0)
   \<and> commentsTreePreserveOrder inherited_batch empty_heap = Inr (0, inherited_heap)
   \<and> treeNodes 4 inherited_heap 0 = [0, 1]
   \<and> length (treeNodes 4 inherited_heap 0) \<noteq> 1 + length inherited_batch"
  by (simp add: self_parent_run twice_run inherited_run)
     (simp add: self_parent_def self_parent_heap_def twice_batch_def twice_heap_def
        inherited_batch_def inherited_heap_def root_node_def childrenOf_def eval_nat_numeral)

text \<open>
  C8, as amended. Let no record after the \<open>i\<close>-th carry the id of the \<open>i\<close>-th, and let the
  chain of \<^verbatim>\<open>parentId\<close> references that starts at the \<open>i\<close>-th record end at a top-level
  record, without meeting a key the lookup object inherits. Then in the tree returned by
  \<^verbatim>\<open>commentsTreePreserveOrder\<close> the \<^verbatim>\<open>parent\<close> links of the node created for the record,
  followed repeatedly, reach the root in at most \<open>|C|\<close> steps. Nothing is assumed about
  the records that are not on the chain.
\<close>

theorem parent_chain_bounded:
  assumes "last_of cs i" and "resolves cs k (cs ! i)"
  shows "\<exists>root h'. commentsTreePreserveOrder cs h = Inr (root, h')
           \<and> climbs h' root (length cs) (Suc (root + i))"
proof -
  have i: "i < length cs" using assms(1) by (simp add: last_of_def)
  then have "cs ! i \<in> set cs" by simp
  from resolves_bound[OF this assms(2)] have "resolves cs (length cs - 1) (cs ! i)" .
  from built_climbs[OF assms(1) this, of h]
  have "climbs (built cs h) (length (nodes h)) (Suc (length cs - 1)) (Suc (length (nodes h) + i))" .
  moreover have "Suc (length cs - 1) = length cs" using i by simp
  ultimately have "climbs (built cs h) (length (nodes h)) (length cs) (Suc (length (nodes h) + i))"
    by (simp only:)
  then show ?thesis using cTPO_eq[of cs h] by blast
qed

text \<open>
  The chain of the reply \<open>u\<close> resolves although the batch also holds a record that is its
  own parent.
\<close>

theorem parent_chain_bounded_witness:
  "last_of mixed_batch 2 \<and> resolves mixed_batch 1 (mixed_batch ! 2)
   \<and> (\<exists>root h'. commentsTreePreserveOrder mixed_batch empty_heap = Inr (root, h')
           \<and> climbs h' root (length mixed_batch) (Suc (root + 2)))"
  using parent_chain_bounded[of mixed_batch 2 1 empty_heap]
  by (simp add: mixed_batch_def last_of_def at_root_def top_level_def truthy_def inherited_def)

text \<open>
  C8 as stated fails, in three ways. The node of a record whose \<^verbatim>\<open>parentId\<close> equals its own
  id gets itself as its parent. The node of a reply to \<^verbatim>\<open>constructor\<close> gets as its parent
  the function \<^verbatim>\<open>nodeMap\<close> inherits under that name. And of two records with the same id the
  first leaves its node without a parent. In each case the parent links of the node do
  not reach the root.
\<close>

theorem parent_chain_broken:
  "commentsTreePreserveOrder self_parent empty_heap = Inr (0, self_parent_heap)
   \<and> parent (nodes self_parent_heap ! 1) = Some (NodeRef 1)
   \<and> \<not> climbs self_parent_heap 0 (length self_parent) 1
   \<and> commentsTreePreserveOrder inherited_batch empty_heap = Inr (0, inherited_heap)
   \<and> parent (nodes inherited_heap ! 2) = Some OtherObject
   \<and> \<not> climbs inherited_heap 0 (length inherited_batch) 2
   \<and> commentsTreePreserveOrder twice_batch empty_heap = Inr (0, twice_heap)
   \<and> parent (nodes twice_heap ! 1) = None
   \<and> \<not> climbs twice_heap 0 (length twice_batch) 1"
  by (simp add: self_parent_run twice_run inherited_run)
     (simp add: self_parent_def self_parent_heap_def twice_batch_def twice_heap_def
        inherited_batch_def inherited_heap_def root_node_def eval_nat_numeral)

text \<open>
  C9, as amended. Whatever the action, the objects of the given store change by insertion
  only (\<open>grown\<close>): every node keeps its comment, its parent and its flags, its \<^verbatim>\<open>children\<close>
  field is the same or refers to a new array, and every array keeps its elements, in
  order, with only new nodes appended. An action that is neither a new-comment nor a
  reply-batch event changes no object at all: the returned store is the given one with
  new objects added. After a reply-batch event (\<open>appended\<close>) every node that had a children
  array still has the same one. A new-comment event, on a store without dangling
  references, appends the new node to the children array of its parent and changes no
  other array; it changes no node except the stored root, when the insertion is not at
  the top level, and a parent that had no children array; and the root its entry refers
  to afterwards is an object that did not exist before (\<open>one_insertion\<close>).
  (\<^verbatim>\<open>commentsTree\<close> and \<^verbatim>\<open>addComment\<close> are modelled from the spec.)
\<close>

theorem store_changes_by_insertion:
  assumes "commentsReducer k now state a h = Inr (state', h')"
  shows "grown h h'
       \<and> (type' a \<noteq> typeNewCommentAdded \<and> type' a \<noteq> typeReplyCommentsAdded
            \<longrightarrow> (\<exists>ns as. nodes h' = nodes h @ ns \<and> arrays h' = arrays h @ as))
       \<and> (type' a = typeReplyCommentsAdded \<longrightarrow> appended h h')
       \<and> (\<forall>p c it found. type' a = typeNewCommentAdded \<and> payload a = CommentPayload p c
              \<and> items state p = Some it \<and> refs_ok h \<and> comments it < length (nodes h)
              \<and> (if truthy (parentId c) then searchTree k h (comments it) (the (parentId c))
                  else Inr None) = Inr found
            \<longrightarrow> one_insertion h (comments it)
                   (case found of None \<Rightarrow> comments it | Some q \<Rightarrow> q) h'
                \<and> (\<exists>it'. items state' p = Some it' \<and> length (nodes h) < comments it'))"
  using assms
proof (cases rule: reducer_cases)
  case added
  from commentsAdded_extends[OF added(2)] obtain ns as where
    e: "nodes h' = nodes h @ ns" "arrays h' = arrays h @ as" by blast
  from grown_extension[OF e] e added(1) show ?thesis
    by (auto simp: type_names_distinct[symmetric])
next
  case more
  from moreCommentsAdded_extends[OF more(2)] obtain ns as where
    e: "nodes h' = nodes h @ ns" "arrays h' = arrays h @ as" by blast
  from grown_extension[OF e] e more(1) show ?thesis
    by (auto simp: type_names_distinct[symmetric])
next
  case new
  have g: "grown h h'"
  proof (cases "payload a")
    case (CommentPayload p c)
    with new(2) show ?thesis by (simp add: newCommentAdded_grown)
  qed (use new(2) in \<open>simp_all add: newCommentAdded_case_def\<close>)
  have "one_insertion h (comments it) (case found of None \<Rightarrow> comments it | Some q \<Rightarrow> q) h'
        \<and> (\<exists>it'. items state' p = Some it' \<and> length (nodes h) < comments it')"
    if "payload a = CommentPayload p c" "items state p = Some it" "refs_ok h"
      "comments it < length (nodes h)"
      "(if truthy (parentId c) then searchTree k h (comments it) (the (parentId c))
        else Inr None) = Inr found" for p c it found
  proof -
    have run: "newCommentAdded_case k state (CommentPayload p c) h = Inr (state', h')"
      using new(2) that(1) by simp
    from new_comment_one_insertion[OF run that(2,3,4,5)] newCommentAdded_fresh_root[OF run]
    show ?thesis by simp
  qed
  with g new(1) show ?thesis by (auto simp: type_names_distinct[symmetric])
next
  case reply
  from replyCommentsAdded_appended[OF reply(2)] reply(1) show ?thesis
    by (auto simp: type_names_distinct appended_grown)
next
  case loaded
  from commentsLoaded_extends[OF loaded(2)] obtain ns as where
    e: "nodes h' = nodes h @ ns" "arrays h' = arrays h @ as" by blast
  have "typeCommentsLoaded \<noteq> typeNewCommentAdded" "typeCommentsLoaded \<noteq> typeReplyCommentsAdded"
    by (simp_all add: typeCommentsLoaded_def typeNewCommentAdded_def typeReplyCommentsAdded_def)
  with grown_extension[OF e] e loaded(1) show ?thesis by auto
next
  case other
  then show ?thesis by (auto simp: grown_refl)
qed

theorem store_changes_by_insertion_witness:
  "(\<exists>state' h'. commentsReducer 0 (\<lambda>i. 2000) once_state (commentsLoaded ''q'' scenario) once_heap
        = Inr (state', h')
      \<and> (\<exists>ns as. nodes h' = nodes once_heap @ ns \<and> arrays h' = arrays once_heap @ as))
   \<and> (\<exists>state'. commentsReducer 5 (\<lambda>i. 2000) scenario_state (replyCommentsAdded ''p'' [reply_x])
                   scenario_heap = Inr (state', after_batch_heap))
   \<and> appended scenario_heap after_batch_heap
   \<and> commentsReducer 5 (\<lambda>i. 2000) scenario_state (newCommentAdded ''p'' reply_x) scenario_heap
       = Inr (after_reply_state, after_reply_heap)
   \<and> refs_ok scenario_heap
   \<and> searchTree 5 scenario_heap 0 ''b'' = Inr (Some 3)
   \<and> grown scenario_heap after_reply_heap
   \<and> one_insertion scenario_heap 0 3 after_reply_heap
   \<and> (\<exists>it'. items after_reply_state ''p'' = Some it'
          \<and> length (nodes scenario_heap) < comments it')"
proof -
  have "\<exists>state' h'. commentsReducer 0 (\<lambda>i. 2000) once_state (commentsLoaded ''q'' scenario) once_heap
          = Inr (state', h')"
    using cTPO_eq[of scenario once_heap]
    by (simp add: commentsReducer_def commentsLoaded_def commentsLoaded_case_def
          typeCommentsAdded_def typeMoreCommentsAdded_def typeNewCommentAdded_def
          typeReplyCommentsAdded_def typeCommentsLoaded_def)
  then obtain state' h' where run:
    "commentsReducer 0 (\<lambda>i. 2000) once_state (commentsLoaded ''q'' scenario) once_heap
       = Inr (state', h')" by blast
  from store_changes_by_insertion[OF run]
  have a: "\<exists>ns as. nodes h' = nodes once_heap @ ns \<and> arrays h' = arrays once_heap @ as"
    by (simp add: commentsLoaded_def typeNewCommentAdded_def typeReplyCommentsAdded_def
          typeCommentsLoaded_def)
  from store_changes_by_insertion[OF reply_batch_run]
  have m: "appended scenario_heap after_batch_heap"
    by (simp add: replyCommentsAdded_def)
  let ?it = "\<lparr>comments = 0, next = None, zIndexTop = Some (Finite 100000),
               fetchedAt = Some 1000, lastFetchedAt = Some 1000\<rparr>"
  have r: "refs_ok scenario_heap" by (rule tree_ok_refs[OF scenario_heap_ok])
  have s: "searchTree 5 scenario_heap 0 ''b'' = Inr (Some 3)"
    by (simp add: scenario_heap_def root_node_def eval_nat_numeral)
  have pre: "type' (newCommentAdded ''p'' reply_x) = typeNewCommentAdded
      \<and> payload (newCommentAdded ''p'' reply_x) = CommentPayload ''p'' reply_x
      \<and> items scenario_state ''p'' = Some ?it \<and> refs_ok scenario_heap
      \<and> comments ?it < length (nodes scenario_heap)
      \<and> (if truthy (parentId reply_x)
          then searchTree 5 scenario_heap (comments ?it) (the (parentId reply_x))
          else Inr None) = Inr (Some 3)"
    using r s by (simp add: newCommentAdded_def scenario_state_def reply_x_def truthy_def
        scenario_heap_def)
  from store_changes_by_insertion[OF nested_reply_run]
  have g: "grown scenario_heap after_reply_heap"
    and c: "\<forall>p c it found. type' (newCommentAdded ''p'' reply_x) = typeNewCommentAdded
              \<and> payload (newCommentAdded ''p'' reply_x) = CommentPayload p c
              \<and> items scenario_state p = Some it \<and> refs_ok scenario_heap
              \<and> comments it < length (nodes scenario_heap)
              \<and> (if truthy (parentId c)
                  then searchTree 5 scenario_heap (comments it) (the (parentId c))
                  else Inr None) = Inr found
            \<longrightarrow> one_insertion scenario_heap (comments it)
                   (case found of None \<Rightarrow> comments it | Some q \<Rightarrow> q) after_reply_heap
                \<and> (\<exists>it'. items after_reply_state p = Some it'
                       \<and> length (nodes scenario_heap) < comments it')"
    by blast+
  from c pre have "one_insertion scenario_heap (comments ?it)
                   (case Some 3 of None \<Rightarrow> comments ?it | Some q \<Rightarrow> q) after_reply_heap
                \<and> (\<exists>it'. items after_reply_state ''p'' = Some it'
                       \<and> length (nodes scenario_heap) < comments it')"
    by blast
  then have b: "one_insertion scenario_heap 0 3 after_reply_heap"
    "\<exists>it'. items after_reply_state ''p'' = Some it' \<and> length (nodes scenario_heap) < comments it'"
    by simp_all
  from run a reply_batch_run m nested_reply_run r s g b show ?thesis by blast
qed

text \<open>
  C9 as stated fails, in three ways. The state holds the scenario's tree for the post \<open>p\<close>,
  with root node \<open>0\<close>. After the new-comment event for a reply to \<open>b\<close>, node \<open>0\<close> itself has
  a different \<^verbatim>\<open>children\<close> array (\<^verbatim>\<open>root.children = newChildren\<close>), and the children array of
  the node of \<open>b\<close>, empty before, holds the new node. After the reply-batch event for the
  same reply, the children array of the node of \<open>b\<close> holds the new node as well. And a
  root without a children array has one after a new top-level comment.
\<close>

theorem stored_tree_changed_in_place:
  "commentsReducer 5 (\<lambda>i. 2000) scenario_state (newCommentAdded ''p'' reply_x) scenario_heap
     = Inr (after_reply_state, after_reply_heap)
   \<and> map_option comments (items scenario_state ''p'') = Some 0
   \<and> children (nodes scenario_heap ! 0) = Some 0
   \<and> children (nodes after_reply_heap ! 0) = Some 5
   \<and> childrenOf scenario_heap 3 = []
   \<and> childrenOf after_reply_heap 3 = [4]
   \<and> (case commentsReducer 5 (\<lambda>i. 2000) scenario_state (replyCommentsAdded ''p'' [reply_x])
             scenario_heap of
        Inl e \<Rightarrow> False
      | Inr (state', h') \<Rightarrow> h' = after_batch_heap)
   \<and> childrenOf after_batch_heap 3 = [4]
   \<and> (case commentsReducer 5 (\<lambda>i. 2000) loaded_state (newCommentAdded ''p'' top_y) bare_heap of
        Inl e \<Rightarrow> False
      | Inr (state', h') \<Rightarrow> h' = after_bare_heap)
   \<and> children (nodes bare_heap ! 0) = None
   \<and> children (nodes after_bare_heap ! 0) = Some 1"
  by (simp add: nested_reply_run reply_batch_run bare_run)
     (simp add: scenario_state_def scenario_heap_def after_reply_heap_def after_batch_heap_def
        bare_heap_def after_bare_heap_def root_node_def comment_node_def childrenOf_def)

text \<open>
  C10. For every state and store, an action whose type is none of the five comment action
  types is answered with the state itself, and the store is left as it is.
\<close>

theorem reducer_other_action:
  "type' a \<notin> {typeCommentsAdded, typeNewCommentAdded, typeReplyCommentsAdded,
               typeMoreCommentsAdded, typeCommentsLoaded}
   \<Longrightarrow> commentsReducer k now state a h = Inr (state, h)"
  by (simp add: commentsReducer_def)

theorem reducer_other_action_witness:
  "type' \<lparr>type' = ''posts/postAdded'', payload = OtherPayload\<rparr> \<notin>
      {typeCommentsAdded, typeNewCommentAdded, typeReplyCommentsAdded,
       typeMoreCommentsAdded, typeCommentsLoaded}
   \<and> commentsReducer 3 (\<lambda>i. 1000) two_posts
         \<lparr>type' = ''posts/postAdded'', payload = OtherPayload\<rparr> three_roots
       = Inr (two_posts, three_roots)"
  using reducer_other_action[of "\<lparr>type' = ''posts/postAdded'', payload = OtherPayload\<rparr>"
          3 "\<lambda>i. 1000" two_posts three_roots]
  by (simp add: typeCommentsAdded_def typeNewCommentAdded_def typeReplyCommentsAdded_def
        typeMoreCommentsAdded_def typeCommentsLoaded_def)

end
